theory Spec2Isabelle
  imports Main "HOL-Library.Word"
begin

section \<open>JavaScript strings and values\<close>

text \<open>
  A JavaScript string is a sequence of 16-bit code units; \<open>s.length\<close> counts code units
  and \<open>s[i]\<close> is the one-unit string at index \<open>i\<close>.
\<close>

type_synonym jschar = "16 word"
type_synonym jsstring = "jschar list"

definition js :: "string \<Rightarrow> jsstring" where
  "js s = map of_char s"

text \<open>
  \<open>String.prototype.toUpperCase\<close>, unit by unit. The table is the Unicode default upper
  case mapping for U+0000 to U+00FF: the ASCII letters, the Latin-1 letters (U+00F7, the
  division sign, has no mapping), the micro sign (to U+039C), \<open>y\<close> with diaeresis (to
  U+0178) and the sharp s U+00DF, whose upper case is the two units \<open>SS\<close>. Units above
  U+00FF are left as they are: the rest of the Unicode table is not embedded.
\<close>

definition upperUnit :: "jschar \<Rightarrow> jsstring" where
  "upperUnit c =
     (if 0x61 \<le> c \<and> c \<le> 0x7A then [c - 0x20]
      else if c = 0xB5 then [0x39C]
      else if c = 0xDF then [0x53, 0x53]
      else if 0xE0 \<le> c \<and> c \<le> 0xFE \<and> c \<noteq> 0xF7 then [c - 0x20]
      else if c = 0xFF then [0x178]
      else [c])"

definition toUpperCase :: "jsstring \<Rightarrow> jsstring" where
  "toUpperCase s = concat (map upperUnit s)"

text \<open>
  The entries of a parsed grid are JSON scalars; the shape check asks for
  \<open>typeof cell === 'string'\<close>, so the entries that are not strings are part of the model.
\<close>

datatype jsval = JString jsstring | JNumber int | JBoolean bool | JNull

type_synonym jsgrid = "jsval list list"

section \<open>The data of \<open>types.ts\<close>\<close>

text \<open>
  The coordinates are integers, as the response schema declares them
  (\<open>Type.INTEGER\<close>); they may be negative or beyond the grid.
\<close>

record Solution =
  word :: jsstring
  startRow :: int
  startCol :: int
  endRow :: int
  endCol :: int

record PuzzleData =
  grid :: jsgrid
  solution :: "Solution list"
  wordsUsed :: "jsstring list"

section \<open>Errors\<close>

text \<open>
  Every \<open>throw\<close> of the source is a constructor carrying the values its message
  interpolates:
  \<^item> \<open>ShapeError size\<close>: "The grid dimensions or structure are incorrect. Expected a
    size x size array of single-character strings."
  \<^item> \<open>CornerError word\<close>: "Invalid puzzle: The word "word" starts at the top-left corner
    (0,0), which is disallowed."
  \<^item> \<open>NotInWordsUsed word\<close>: "Word "word" is in the solution but not in the 'wordsUsed'
    list."
  \<^item> \<open>OutOfBounds word\<close>: "Coordinates for word "word" are out of the grid bounds."
  \<^item> \<open>LengthMismatch word expectedLength length\<close>: "The coordinates for "word" produce a
    length of expectedLength, but the word's length is length."
  \<^item> \<open>IntersectionError word occupant row col\<close>: "The model created an invalid puzzle where
    words "word" and "occupant" intersect at grid position (row, col). Words are not
    allowed to intersect."
  \<^item> \<open>TypeError\<close>: the exception of the runtime when a property of \<open>undefined\<close> is read
    or a value that is not a function is called.
  \<^item> \<open>TransportError\<close>, \<open>ParseError\<close>: the request to the generator or \<open>JSON.parse\<close>
    threw.
  \<^item> \<open>InvalidStructure\<close>: "Invalid puzzle data structure received from API."
  \<^item> \<open>ExhaustedRetries n\<close>: "The model failed to generate a valid puzzle after n
    attempts. This can happen if words are too long for the grid size. Please try using a
    larger grid or shorter words."
\<close>

datatype error =
    ShapeError int
  | CornerError jsstring
  | NotInWordsUsed jsstring
  | OutOfBounds jsstring
  | LengthMismatch jsstring int nat
  | IntersectionError jsstring jsstring int int
  | TypeError
  | TransportError
  | ParseError
  | InvalidStructure
  | ExhaustedRetries nat

section \<open>\<open>validateAndCorrectPuzzleData\<close>\<close>

text \<open>The shape check of line 116, with \<open>some\<close> and \<open>every\<close> as they are written.\<close>

fun singleCharString :: "jsval \<Rightarrow> bool" where
  "singleCharString (JString s) = (length s = 1)"
| "singleCharString _ = False"

definition shapeWrong :: "jsgrid \<Rightarrow> int \<Rightarrow> bool" where
  "shapeWrong g sz =
     (int (length g) \<noteq> sz \<or>
      list_ex (\<lambda>row. int (length row) \<noteq> sz \<or> \<not> list_all singleCharString row) g)"

text \<open>
  \<open>occupiedCells\<close> maps the key \<open>`${r}-${c}`\<close> to the claiming word and the expected
  character. Two pairs of integers have the same key only if they are equal (the key is
  an optional sign, digits, a hyphen, an optional sign, digits), so the map is keyed by
  the pair.
\<close>

type_synonym occupied = "(int \<times> int) \<rightharpoonup> (jsstring \<times> jsstring)"

type_synonym vstate = "jsgrid \<times> occupied"

text \<open>
  \<open>correctedGrid[r][c].toUpperCase()\<close> needs row \<open>r\<close> to exist and its entry \<open>c\<close> to be
  a string; otherwise the runtime throws a TypeError (\<open>None\<close> here).
\<close>

definition readCell :: "jsgrid \<Rightarrow> int \<Rightarrow> int \<Rightarrow> jsstring option" where
  "readCell g r c =
     (if 0 \<le> r \<and> r < int (length g) then
        (let row = g ! nat r in
         if 0 \<le> c \<and> c < int (length row) then
           (case row ! nat c of JString s \<Rightarrow> Some s | _ \<Rightarrow> None)
         else None)
      else None)"

definition writeCell :: "jsgrid \<Rightarrow> int \<Rightarrow> int \<Rightarrow> jsstring \<Rightarrow> jsgrid" where
  "writeCell g r c s = g[nat r := (g ! nat r)[nat c := JString s]]"

text \<open>
  The inner loop of lines 151 to 172, on the characters of the word still to be placed:
  the intersection test, the claim of the cell, the repair, the step.
\<close>

fun walk :: "jsstring \<Rightarrow> jsstring \<Rightarrow> int \<Rightarrow> int \<Rightarrow> int \<Rightarrow> int \<Rightarrow> vstate \<Rightarrow> error + vstate" where
  "walk w [] r c dRow dCol st = Inr st"
| "walk w (ch # rest) r c dRow dCol (g, occ) =
     (let expectedChar = toUpperCase [ch] in
      case occ (r, c) of
        Some existingOccupant \<Rightarrow> Inl (IntersectionError w (fst existingOccupant) (r + 1) (c + 1))
      | None \<Rightarrow>
         (let occ' = occ((r, c) \<mapsto> (w, expectedChar)) in
          case readCell g r c of
            None \<Rightarrow> Inl TypeError
          | Some s \<Rightarrow>
              walk w rest (r + dRow) (c + dCol) dRow dCol
                ((if toUpperCase s \<noteq> expectedChar then writeCell g r c expectedChar else g), occ')))"

text \<open>The body of the loop over the solution, lines 124 to 172.\<close>

definition expectedLength :: "Solution \<Rightarrow> int" where
  "expectedLength sol =
     max \<bar>endRow sol - startRow sol\<bar> \<bar>endCol sol - startCol sol\<bar> + 1"

definition validateSolution :: "int \<Rightarrow> jsstring list \<Rightarrow> Solution \<Rightarrow> vstate \<Rightarrow> error + vstate" where
  "validateSolution sz used sol st =
     (if startRow sol = 0 \<and> startCol sol = 0 then Inl (CornerError (word sol))
      else if word sol \<notin> set used then Inl (NotInWordsUsed (word sol))
      else if startRow sol < 0 \<or> startRow sol \<ge> sz \<or> startCol sol < 0 \<or> startCol sol \<ge> sz \<or>
              endRow sol < 0 \<or> endRow sol \<ge> sz \<or> endCol sol < 0 \<or> endCol sol \<ge> sz
        then Inl (OutOfBounds (word sol))
      else if expectedLength sol \<noteq> int (length (word sol))
        then Inl (LengthMismatch (word sol) (expectedLength sol) (length (word sol)))
      else walk (word sol) (word sol) (startRow sol) (startCol sol)
             (sgn (endRow sol - startRow sol)) (sgn (endCol sol - startCol sol)) st)"

fun validateSolutions :: "int \<Rightarrow> jsstring list \<Rightarrow> Solution list \<Rightarrow> vstate \<Rightarrow> error + vstate" where
  "validateSolutions sz used [] st = Inr st"
| "validateSolutions sz used (sol # sols) st =
     (case validateSolution sz used sol st of
        Inl e \<Rightarrow> Inl e
      | Inr st' \<Rightarrow> validateSolutions sz used sols st')"

definition validateAndCorrectPuzzleData :: "PuzzleData \<Rightarrow> int \<Rightarrow> error + PuzzleData" where
  "validateAndCorrectPuzzleData data sz =
     (if shapeWrong (grid data) sz then Inl (ShapeError sz)
      else case validateSolutions sz (wordsUsed data) (solution data) (grid data, Map.empty) of
             Inl e \<Rightarrow> Inl e
           | Inr st \<Rightarrow> Inr (data\<lparr>grid := fst st\<rparr>))"

section \<open>\<open>generateWordSearch\<close>\<close>

text \<open>
  One attempt sends the request, parses the text of the response, tests that the three
  fields are there and validates. What the generator answers is not decided by the
  program, so it is a parameter: \<open>gen k\<close> is what the \<open>k\<close>-th request comes back with.
  The words and the directions only enter the prompt.
\<close>

datatype attemptOutcome = RequestFails | TextUnparsable | FieldsMissing | Parsed PuzzleData

fun attemptResult :: "attemptOutcome \<Rightarrow> int \<Rightarrow> error + PuzzleData" where
  "attemptResult RequestFails sz = Inl TransportError"
| "attemptResult TextUnparsable sz = Inl ParseError"
| "attemptResult FieldsMissing sz = Inl InvalidStructure"
| "attemptResult (Parsed parsedData) sz = validateAndCorrectPuzzleData parsedData sz"

text \<open>
  The loop of lines 204 to 232 and the throw after it. The record of a run counts the
  requests sent and keeps the \<open>console.warn\<close> line of every failed attempt.
\<close>

definition MAX_RETRIES :: nat where
  "MAX_RETRIES = 3"

record run =
  requests :: nat
  warnings :: "(nat \<times> error) list"
  outcome :: "error + PuzzleData"

function attemptLoop :: "(nat \<Rightarrow> attemptOutcome) \<Rightarrow> int \<Rightarrow> nat \<Rightarrow> (nat \<times> error) list \<Rightarrow> run" where
  "attemptLoop gen sz attempt log =
     (if attempt \<le> MAX_RETRIES then
        (case attemptResult (gen attempt) sz of
           Inr p \<Rightarrow> \<lparr>requests = attempt, warnings = log, outcome = Inr p\<rparr>
         | Inl lastError \<Rightarrow>
            (let log' = log @ [(attempt, lastError)] in
             if attempt = MAX_RETRIES
             then \<lparr>requests = attempt, warnings = log', outcome = Inl (ExhaustedRetries MAX_RETRIES)\<rparr>
             else attemptLoop gen sz (attempt + 1) log'))
      else \<lparr>requests = attempt - 1, warnings = log, outcome = Inl (ExhaustedRetries MAX_RETRIES)\<rparr>)"
  by pat_completeness auto
termination
  by (relation "measure (\<lambda>(gen, sz, attempt, log). MAX_RETRIES + 1 - attempt)") auto

definition generateWordSearch :: "(nat \<Rightarrow> attemptOutcome) \<Rightarrow> int \<Rightarrow> run" where
  "generateWordSearch gen sz = attemptLoop gen sz 1 []"

section \<open>The solution overlay of \<open>WordSearchGrid\<close>\<close>

text \<open>
  The overlay colours the cells of every placement of a validated puzzle. It walks with
  the same unit steps as the validator, but from the start until the cell is the declared
  end (\<open>while (true) { ...; if (r === endRow && c === endCol) break; ... }\<close>), so the
  loop need not end: \<open>None\<close> is a walk that never reaches the end. The colour is the
  index into the palette of 14 colours.
\<close>

partial_function (option) highlightWalk ::
  "int \<Rightarrow> int \<Rightarrow> int \<Rightarrow> int \<Rightarrow> int \<Rightarrow> int \<Rightarrow> nat \<Rightarrow> ((int \<times> int) \<rightharpoonup> nat) \<Rightarrow>
     ((int \<times> int) \<rightharpoonup> nat) option" where
  "highlightWalk r c eRow eCol dRow dCol color cellMap =
     (let cellMap' = cellMap((r, c) \<mapsto> color) in
      if r = eRow \<and> c = eCol then Some cellMap'
      else highlightWalk (r + dRow) (c + dCol) eRow eCol dRow dCol color cellMap')"

definition highlightPlacement :: "Solution \<Rightarrow> nat \<Rightarrow> ((int \<times> int) \<rightharpoonup> nat) \<Rightarrow>
    ((int \<times> int) \<rightharpoonup> nat) option" where
  "highlightPlacement sol index cellMap =
     highlightWalk (startRow sol) (startCol sol) (endRow sol) (endCol sol)
       (sgn (endRow sol - startRow sol)) (sgn (endCol sol - startCol sol)) (index mod 14) cellMap"

section \<open>The validator on a store of arrays\<close>

text \<open>
  The grid is an array of references to row arrays, and the function writes into rows.
  Whether the caller's arrays are touched depends on which rows are written, so here the
  arrays live in a store: an address is an index into the list of allocated objects, and
  allocating appends. \<open>grid.map(row => [...row])\<close> allocates a fresh copy of every row
  and a fresh outer array; \<open>{...data, grid: correctedGrid}\<close> allocates a fresh object
  that shares the solution and \<open>wordsUsed\<close> arrays of the input.
\<close>

datatype obj =
    Cells "jsval list"
  | Refs "nat list"
  | Placements "Solution list"
  | Words "jsstring list"
  | Puzzle nat nat nat

type_synonym store = "obj list"

definition cellsAt :: "store \<Rightarrow> nat \<Rightarrow> jsval list option" where
  "cellsAt s a = (if a < length s then (case s ! a of Cells cs \<Rightarrow> Some cs | _ \<Rightarrow> None) else None)"

definition refsAt :: "store \<Rightarrow> nat \<Rightarrow> nat list option" where
  "refsAt s a = (if a < length s then (case s ! a of Refs rr \<Rightarrow> Some rr | _ \<Rightarrow> None) else None)"

definition placementsAt :: "store \<Rightarrow> nat \<Rightarrow> Solution list option" where
  "placementsAt s a =
     (if a < length s then (case s ! a of Placements ps \<Rightarrow> Some ps | _ \<Rightarrow> None) else None)"

definition wordsAt :: "store \<Rightarrow> nat \<Rightarrow> jsstring list option" where
  "wordsAt s a = (if a < length s then (case s ! a of Words ws \<Rightarrow> Some ws | _ \<Rightarrow> None) else None)"

definition puzzleAt :: "store \<Rightarrow> nat \<Rightarrow> (nat \<times> nat \<times> nat) option" where
  "puzzleAt s a =
     (if a < length s then (case s ! a of Puzzle g so w \<Rightarrow> Some (g, so, w) | _ \<Rightarrow> None) else None)"

definition derefGrid :: "store \<Rightarrow> nat \<Rightarrow> jsgrid option" where
  "derefGrid s a =
     (case refsAt s a of
        None \<Rightarrow> None
      | Some rr \<Rightarrow>
          if list_all (\<lambda>ra. cellsAt s ra \<noteq> None) rr
          then Some (map (\<lambda>ra. the (cellsAt s ra)) rr) else None)"

definition derefData :: "store \<Rightarrow> nat \<Rightarrow> PuzzleData option" where
  "derefData s a =
     (case puzzleAt s a of
        None \<Rightarrow> None
      | Some (g, so, w) \<Rightarrow>
         (case derefGrid s g of
            None \<Rightarrow> None
          | Some gr \<Rightarrow>
             (case placementsAt s so of
                None \<Rightarrow> None
              | Some ps \<Rightarrow>
                 (case wordsAt s w of
                    None \<Rightarrow> None
                  | Some ws \<Rightarrow> Some \<lparr>grid = gr, solution = ps, wordsUsed = ws\<rparr>))))"

definition copyGrid :: "store \<Rightarrow> nat \<Rightarrow> (store \<times> nat) option" where
  "copyGrid s gref =
     (case derefGrid s gref of
        None \<Rightarrow> None
      | Some g \<Rightarrow>
          Some (s @ map Cells g @ [Refs [length s..<length s + length g]],
                length s + length g))"

definition readCellH :: "store \<Rightarrow> nat \<Rightarrow> int \<Rightarrow> int \<Rightarrow> jsstring option" where
  "readCellH s cref r c =
     (case refsAt s cref of
        None \<Rightarrow> None
      | Some rr \<Rightarrow>
          if 0 \<le> r \<and> r < int (length rr) then
            (case cellsAt s (rr ! nat r) of
               None \<Rightarrow> None
             | Some row \<Rightarrow>
                 if 0 \<le> c \<and> c < int (length row) then
                   (case row ! nat c of JString x \<Rightarrow> Some x | _ \<Rightarrow> None)
                 else None)
          else None)"

definition writeCellH :: "store \<Rightarrow> nat \<Rightarrow> int \<Rightarrow> int \<Rightarrow> jsstring \<Rightarrow> store" where
  "writeCellH s cref r c x =
     (case refsAt s cref of
        None \<Rightarrow> s
      | Some rr \<Rightarrow>
         (case cellsAt s (rr ! nat r) of
            None \<Rightarrow> s
          | Some row \<Rightarrow> s[rr ! nat r := Cells (row[nat c := JString x])]))"

text \<open>
  The same loops as above, reading and writing \<open>correctedGrid\<close> through its reference
  \<open>cref\<close>. An exception leaves the store as it is at that moment.
\<close>

fun walkH :: "nat \<Rightarrow> jsstring \<Rightarrow> jsstring \<Rightarrow> int \<Rightarrow> int \<Rightarrow> int \<Rightarrow> int \<Rightarrow> store \<times> occupied \<Rightarrow>
    store \<times> (error + occupied)" where
  "walkH cref w [] r c dRow dCol (s, occ) = (s, Inr occ)"
| "walkH cref w (ch # rest) r c dRow dCol (s, occ) =
     (let expectedChar = toUpperCase [ch] in
      case occ (r, c) of
        Some existingOccupant \<Rightarrow>
          (s, Inl (IntersectionError w (fst existingOccupant) (r + 1) (c + 1)))
      | None \<Rightarrow>
         (let occ' = occ((r, c) \<mapsto> (w, expectedChar)) in
          case readCellH s cref r c of
            None \<Rightarrow> (s, Inl TypeError)
          | Some x \<Rightarrow>
              walkH cref w rest (r + dRow) (c + dCol) dRow dCol
                ((if toUpperCase x \<noteq> expectedChar then writeCellH s cref r c expectedChar else s),
                 occ')))"

definition validateSolutionH :: "nat \<Rightarrow> int \<Rightarrow> jsstring list \<Rightarrow> Solution \<Rightarrow> store \<times> occupied \<Rightarrow>
    store \<times> (error + occupied)" where
  "validateSolutionH cref sz used sol st =
     (if startRow sol = 0 \<and> startCol sol = 0 then (fst st, Inl (CornerError (word sol)))
      else if word sol \<notin> set used then (fst st, Inl (NotInWordsUsed (word sol)))
      else if startRow sol < 0 \<or> startRow sol \<ge> sz \<or> startCol sol < 0 \<or> startCol sol \<ge> sz \<or>
              endRow sol < 0 \<or> endRow sol \<ge> sz \<or> endCol sol < 0 \<or> endCol sol \<ge> sz
        then (fst st, Inl (OutOfBounds (word sol)))
      else if expectedLength sol \<noteq> int (length (word sol))
        then (fst st, Inl (LengthMismatch (word sol) (expectedLength sol) (length (word sol))))
      else walkH cref (word sol) (word sol) (startRow sol) (startCol sol)
             (sgn (endRow sol - startRow sol)) (sgn (endCol sol - startCol sol)) st)"

fun validateSolutionsH :: "nat \<Rightarrow> int \<Rightarrow> jsstring list \<Rightarrow> Solution list \<Rightarrow> store \<times> occupied \<Rightarrow>
    store \<times> (error + occupied)" where
  "validateSolutionsH cref sz used [] (s, occ) = (s, Inr occ)"
| "validateSolutionsH cref sz used (sol # sols) (s, occ) =
     (case validateSolutionH cref sz used sol (s, occ) of
        (s', Inl e) \<Rightarrow> (s', Inl e)
      | (s', Inr occ') \<Rightarrow> validateSolutionsH cref sz used sols (s', occ'))"

definition validateAndCorrectPuzzleDataH :: "store \<Rightarrow> nat \<Rightarrow> int \<Rightarrow> store \<times> (error + nat)" where
  "validateAndCorrectPuzzleDataH s dref sz =
     (case puzzleAt s dref of
        None \<Rightarrow> (s, Inl TypeError)
      | Some (gref, solref, wref) \<Rightarrow>
         (case copyGrid s gref of
            None \<Rightarrow> (s, Inl TypeError)
          | Some (s1, cref) \<Rightarrow>
             (case derefGrid s1 cref of
                None \<Rightarrow> (s1, Inl TypeError)
              | Some correctedGrid \<Rightarrow>
                 if shapeWrong correctedGrid sz then (s1, Inl (ShapeError sz))
                 else
                   (case (placementsAt s1 solref, wordsAt s1 wref) of
                      (Some sols, Some used) \<Rightarrow>
                        (case validateSolutionsH cref sz used sols (s1, Map.empty) of
                           (s2, Inl e) \<Rightarrow> (s2, Inl e)
                         | (s2, Inr occ) \<Rightarrow> (s2 @ [Puzzle cref solref wref], Inr (length s2)))
                    | _ \<Rightarrow> (s1, Inl TypeError)))))"

section \<open>Notions used to state the properties\<close>

text \<open>The four tests of a placement that come before its walk, lines 126 to 144.\<close>

definition checksPass :: "int \<Rightarrow> jsstring list \<Rightarrow> Solution \<Rightarrow> bool" where
  "checksPass sz used sol =
     (\<not> (startRow sol = 0 \<and> startCol sol = 0) \<and> word sol \<in> set used \<and>
      0 \<le> startRow sol \<and> startRow sol < sz \<and> 0 \<le> startCol sol \<and> startCol sol < sz \<and>
      0 \<le> endRow sol \<and> endRow sol < sz \<and> 0 \<le> endCol sol \<and> endCol sol < sz \<and>
      expectedLength sol = int (length (word sol)))"

text \<open>
  The cells the walk of a placement visits: one for each letter, from the start, by the
  signs of the two differences.
\<close>

definition stepRow :: "Solution \<Rightarrow> int" where
  "stepRow sol = sgn (endRow sol - startRow sol)"

definition stepCol :: "Solution \<Rightarrow> int" where
  "stepCol sol = sgn (endCol sol - startCol sol)"

definition cellsOf :: "Solution \<Rightarrow> (int \<times> int) list" where
  "cellsOf sol =
     map (\<lambda>i. (startRow sol + int i * stepRow sol, startCol sol + int i * stepCol sol))
       [0..<length (word sol)]"

definition inGrid :: "int \<Rightarrow> int \<times> int \<Rightarrow> bool" where
  "inGrid sz rc = (0 \<le> fst rc \<and> fst rc < sz \<and> 0 \<le> snd rc \<and> snd rc < sz)"

text \<open>No two placements of the list have a cell in common.\<close>

fun pairwiseApart :: "Solution list \<Rightarrow> bool" where
  "pairwiseApart [] = True"
| "pairwiseApart (a # sols) =
     ((\<forall>s \<in> set sols. set (cellsOf a) \<inter> set (cellsOf s) = {}) \<and> pairwiseApart sols)"

text \<open>
  What the walk keeps of the shape of the grid while it repairs: the size, and that every
  entry is a string (of any length).
\<close>

definition allStrings :: "int \<Rightarrow> jsgrid \<Rightarrow> bool" where
  "allStrings sz g =
     (int (length g) = sz \<and>
      (\<forall>row \<in> set g. int (length row) = sz \<and> (\<forall>cell \<in> set row. \<exists>s. cell = JString s)))"

text \<open>
  A cell spells a letter when it holds a string whose upper case is the upper case of the
  letter; a grid encodes a placement when the cells of its walk spell its word.
\<close>

definition spells :: "jsgrid \<Rightarrow> int \<times> int \<Rightarrow> jschar \<Rightarrow> bool" where
  "spells g rc ch =
     (case readCell g (fst rc) (snd rc) of
        None \<Rightarrow> False
      | Some s \<Rightarrow> toUpperCase s = toUpperCase [ch])"

definition encodes :: "jsgrid \<Rightarrow> Solution \<Rightarrow> bool" where
  "encodes g sol = list_all2 (spells g) (cellsOf sol) (word sol)"

text \<open>
  The store after the copy: the caller's objects \<open>s0\<close>, then the rows of the corrected
  grid \<open>g\<close>, then the outer array that refers to them. The run on the store simulates
  the run on values when its store is such a layout and the results agree.
\<close>

definition layout :: "store \<Rightarrow> jsgrid \<Rightarrow> store" where
  "layout s0 g = s0 @ map Cells g @ [Refs [length s0..<length s0 + length g]]"

definition simulates :: "store \<Rightarrow> nat \<Rightarrow> error + vstate \<Rightarrow> store \<times> (error + occupied) \<Rightarrow> bool" where
  "simulates s0 n pure heap =
     (\<exists>g'. length g' = n \<and> fst heap = layout s0 g' \<and>
        (case pure of
           Inl e \<Rightarrow> snd heap = Inl e
         | Inr st \<Rightarrow> fst st = g' \<and> snd heap = Inr (snd st)))"

section \<open>Example data\<close>

text \<open>
  Grids written as rows of ASCII letters, the grid of \<open>n\<close> by \<open>n\<close> letters \<open>X\<close>, and a
  placement with an ASCII word.
\<close>

definition rows :: "string list \<Rightarrow> jsgrid" where
  "rows ss = map (\<lambda>s. map (\<lambda>ch. JString [of_char ch]) s) ss"

definition gridX :: "nat \<Rightarrow> jsgrid" where
  "gridX n = replicate n (replicate n (JString (js ''X'')))"

definition placement :: "string \<Rightarrow> int \<Rightarrow> int \<Rightarrow> int \<Rightarrow> int \<Rightarrow> Solution" where
  "placement w r1 c1 r2 c2 =
     \<lparr>word = js w, startRow = r1, startCol = c1, endRow = r2, endCol = c2\<rparr>"

text \<open>
  The candidate of scenario A (\<open>CAT\<close> in row 1 with its middle letter wrong), the same
  candidate laid out in a store, and a candidate whose grid has the wrong size.
\<close>

definition scenarioA :: PuzzleData where
  "scenarioA =
     \<lparr>grid = rows [''XXXXX'', ''XCXTX'', ''XXXXX'', ''XXXXX'', ''XXXXX''],
      solution = [placement ''CAT'' 1 1 1 3], wordsUsed = [js ''CAT'']\<rparr>"

definition exampleStore :: store where
  "exampleStore =
     map Cells (rows [''XXXXX'', ''XCXTX'', ''XXXXX'', ''XXXXX'', ''XXXXX'']) @
     [Refs [0, 1, 2, 3, 4], Placements [placement ''CAT'' 1 1 1 3], Words [js ''CAT''],
      Puzzle 5 6 7]"

definition wrongShape :: PuzzleData where
  "wrongShape = \<lparr>grid = gridX 4, solution = [], wordsUsed = []\<rparr>"

section \<open>Auxiliary facts\<close>

subsection \<open>The checks\<close>

lemma shapeWrong_iff:
  "shapeWrong g sz \<longleftrightarrow>
     \<not> (int (length g) = sz \<and>
        (\<forall>row \<in> set g. int (length row) = sz \<and> (\<forall>cell \<in> set row. \<exists>ch. cell = JString [ch])))"
proof -
  have single: "singleCharString cell \<longleftrightarrow> (\<exists>ch. cell = JString [ch])" for cell
    by (cases cell) (auto simp: length_Suc_conv)
  show ?thesis
    by (auto simp: shapeWrong_def list_ex_iff list_all_iff single)
qed

lemma validateSolution_checks:
  "checksPass sz used sol \<Longrightarrow>
     validateSolution sz used sol st =
       walk (word sol) (word sol) (startRow sol) (startCol sol)
         (sgn (endRow sol - startRow sol)) (sgn (endCol sol - startCol sol)) st"
  by (auto simp: checksPass_def validateSolution_def)

lemma validateSolution_Inr_checks:
  "validateSolution sz used sol st = Inr st' \<Longrightarrow> checksPass sz used sol"
  by (auto simp: checksPass_def validateSolution_def split: if_splits)

lemma validateSolutions_Inr_checks:
  "validateSolutions sz used sols st = Inr st' \<Longrightarrow> sol \<in> set sols \<Longrightarrow> checksPass sz used sol"
proof (induction sols arbitrary: st)
  case Nil
  then show ?case by simp
next
  case (Cons a sols)
  then show ?case
    by (auto split: sum.splits dest: validateSolution_Inr_checks)
qed

lemma validateSolutions_append:
  "validateSolutions sz used (pre @ rest) st =
     (case validateSolutions sz used pre st of
        Inl e \<Rightarrow> Inl e
      | Inr st' \<Rightarrow> validateSolutions sz used rest st')"
  by (induction pre arbitrary: st) (auto split: sum.splits)

lemma validate_Inr_iff:
  "validateAndCorrectPuzzleData d sz = Inr out \<longleftrightarrow>
     \<not> shapeWrong (grid d) sz \<and>
     (\<exists>st. validateSolutions sz (wordsUsed d) (solution d) (grid d, Map.empty) = Inr st \<and>
           out = d\<lparr>grid := fst st\<rparr>)"
  by (auto simp: validateAndCorrectPuzzleData_def split: sum.splits)

subsection \<open>Reading and writing cells\<close>

lemma allStrings_readCell:
  assumes "allStrings sz g" "inGrid sz (r, c)"
  shows "\<exists>s. readCell g r c = Some s"
proof -
  from assms have r: "nat r < length g" and "0 \<le> r" "0 \<le> c" "c < sz"
    by (auto simp: allStrings_def inGrid_def)
  then have row: "g ! nat r \<in> set g" by simp
  with assms have len: "int (length (g ! nat r)) = sz"
    and str: "\<forall>cell \<in> set (g ! nat r). \<exists>s. cell = JString s"
    by (auto simp: allStrings_def)
  from len \<open>0 \<le> c\<close> \<open>c < sz\<close> have "nat c < length (g ! nat r)" by linarith
  then have "(g ! nat r) ! nat c \<in> set (g ! nat r)" by simp
  with str obtain s where "(g ! nat r) ! nat c = JString s" by blast
  with r len \<open>0 \<le> r\<close> \<open>0 \<le> c\<close> \<open>c < sz\<close> show ?thesis
    by (simp add: readCell_def)
qed

lemma readCell_inGrid:
  assumes "allStrings sz g" "readCell g r c = Some s"
  shows "inGrid sz (r, c)"
proof -
  from assms(2) have r: "0 \<le> r" "r < int (length g)"
    by (auto simp: readCell_def split: if_splits)
  then have "g ! nat r \<in> set g" by simp
  with assms(1) have "int (length (g ! nat r)) = sz" by (auto simp: allStrings_def)
  moreover from assms(2) r have "0 \<le> c \<and> c < int (length (g ! nat r))"
    by (auto simp: readCell_def Let_def split: if_splits)
  ultimately show ?thesis using r assms(1) by (auto simp: inGrid_def allStrings_def)
qed

lemma allStrings_writeCell:
  assumes "allStrings sz g"
  shows "allStrings sz (writeCell g r c s)"
proof (cases "nat r < length g")
  case False
  then have "writeCell g r c s = g" by (simp add: writeCell_def list_update_beyond not_less)
  with assms show ?thesis by simp
next
  case True
  then have "g ! nat r \<in> set g" by simp
  with assms have old: "int (length (g ! nat r)) = sz"
    "\<forall>cell \<in> set (g ! nat r). \<exists>t. cell = JString t"
    by (auto simp: allStrings_def)
  have new_row: "int (length ((g ! nat r)[nat c := JString s])) = sz \<and>
      (\<forall>cell \<in> set ((g ! nat r)[nat c := JString s]). \<exists>t. cell = JString t)"
    using old by (auto dest!: subsetD [OF set_update_subset_insert])
  have "row = (g ! nat r)[nat c := JString s] \<or> row \<in> set g"
    if "row \<in> set (writeCell g r c s)" for row
    using that subsetD [OF set_update_subset_insert] by (fastforce simp: writeCell_def)
  with new_row assms show ?thesis
    by (fastforce simp: allStrings_def writeCell_def)
qed

lemma walk_allStrings:
  "walk w cs r c dr dc (g, occ) = Inr (g', occ') \<Longrightarrow> allStrings sz g \<Longrightarrow> allStrings sz g'"
proof (induction cs arbitrary: r c g occ)
  case Nil
  then show ?case by simp
next
  case (Cons ch cs)
  then show ?case
    by (auto simp: Let_def allStrings_writeCell split: option.splits if_splits)
qed

lemma shape_allStrings: "\<not> shapeWrong g sz \<Longrightarrow> allStrings sz g"
  by (auto simp: shapeWrong_iff allStrings_def)

subsection \<open>The map of occupied cells\<close>

text \<open>
  What a walk that ends has done to the map, and what a walk does when it comes to a
  cell that is taken.
\<close>

lemma cellsOf_nth:
  "i < length (word sol) \<Longrightarrow>
     cellsOf sol ! i = (startRow sol + int i * stepRow sol, startCol sol + int i * stepCol sol)"
  by (simp add: cellsOf_def)

lemma set_cellsOf:
  "set (cellsOf sol) =
     {(startRow sol + int i * stepRow sol, startCol sol + int i * stepCol sol) | i.
        i < length (word sol)}"
  by (auto simp: cellsOf_def)

lemma walk_Inr_occ:
  assumes "walk w cs r c dr dc (g, occ) = Inr (g', occ')"
  shows "occ \<subseteq>\<^sub>m occ' \<and>
         dom occ' = dom occ \<union> {(r + int i * dr, c + int i * dc) | i. i < length cs} \<and>
         (\<forall>i < length cs. (r + int i * dr, c + int i * dc) \<notin> dom occ \<and>
            (\<exists>x. occ' (r + int i * dr, c + int i * dc) = Some (w, x)))"
  using assms
proof (induction cs arbitrary: r c g occ)
  case Nil
  then show ?case by simp
next
  case (Cons ch cs)
  let ?occ1 = "occ((r, c) \<mapsto> (w, toUpperCase [ch]))"
  from Cons.prems obtain g1 where
    free: "occ (r, c) = None" and
    rec: "walk w cs (r + dr) (c + dc) dr dc (g1, ?occ1) = Inr (g', occ')"
    by (auto simp: Let_def split: option.splits if_splits)
  from Cons.IH [OF rec] have
    le: "?occ1 \<subseteq>\<^sub>m occ'" and
    dm: "dom occ' = dom ?occ1 \<union> {(r + dr + int i * dr, c + dc + int i * dc) | i. i < length cs}" and
    each: "\<forall>i < length cs. (r + dr + int i * dr, c + dc + int i * dc) \<notin> dom ?occ1 \<and>
            (\<exists>x. occ' (r + dr + int i * dr, c + dc + int i * dc) = Some (w, x))"
    by blast+
  have shift: "(r + dr + int i * dr, c + dc + int i * dc) =
               (r + int (Suc i) * dr, c + int (Suc i) * dc)" for i
    by (simp add: algebra_simps)
  have here: "occ' (r, c) = Some (w, toUpperCase [ch])"
    using le by (auto simp: map_le_def dom_def)
  have "occ \<subseteq>\<^sub>m ?occ1" using free by (auto simp: map_le_def dom_def)
  then have 1: "occ \<subseteq>\<^sub>m occ'" using le by (rule map_le_trans)
  have 2: "dom occ' = dom occ \<union> {(r + int i * dr, c + int i * dc) | i. i < length (ch # cs)}"
  proof -
    have "{(r + int i * dr, c + int i * dc) | i. i < length (ch # cs)} =
          insert (r, c) {(r + dr + int i * dr, c + dc + int i * dc) | i. i < length cs}"
      (is "?L = ?R")
    proof
      show "?L \<subseteq> ?R"
      proof
        fix p assume "p \<in> ?L"
        then obtain i where i: "i < Suc (length cs)" "p = (r + int i * dr, c + int i * dc)"
          by auto
        show "p \<in> ?R"
        proof (cases i)
          case 0
          with i show ?thesis by simp
        next
          case (Suc j)
          with i shift [of j] show ?thesis by auto
        qed
      qed
      show "?R \<subseteq> ?L"
      proof
        fix p assume "p \<in> ?R"
        then consider "p = (r, c)" | j where "j < length cs"
          "p = (r + dr + int j * dr, c + dc + int j * dc)" by auto
        then show "p \<in> ?L"
        proof cases
          case 1
          have "(r, c) = (r + int 0 * dr, c + int 0 * dc)" by simp
          with 1 show ?thesis by (metis (mono_tags, lifting) length_Cons mem_Collect_eq zero_less_Suc)
        next
          case 2
          with shift [of j] have "p = (r + int (Suc j) * dr, c + int (Suc j) * dc)" by simp
          moreover from 2 have "Suc j < length (ch # cs)" by simp
          ultimately show ?thesis by blast
        qed
      qed
    qed
    with dm show ?thesis by auto
  qed
  have 3: "(r + int i * dr, c + int i * dc) \<notin> dom occ \<and>
           (\<exists>x. occ' (r + int i * dr, c + int i * dc) = Some (w, x))"
    if "i < length (ch # cs)" for i
  proof (cases i)
    case 0
    with free here show ?thesis by (auto simp: dom_def)
  next
    case (Suc j)
    with that have "j < length cs" by simp
    with each have a: "(r + dr + int j * dr, c + dc + int j * dc) \<notin> dom ?occ1"
      and b: "\<exists>x. occ' (r + dr + int j * dr, c + dc + int j * dc) = Some (w, x)"
      by blast+
    from a have "(r + dr + int j * dr, c + dc + int j * dc) \<notin> dom occ" by simp
    with b show ?thesis unfolding Suc shift [of j, symmetric] by simp
  qed
  from 1 2 3 show ?case by blast
qed

lemma walk_hits_occupied:
  assumes "allStrings sz g"
    and "k < length cs"
    and "occ (r + int k * dr, c + int k * dc) = Some (w', x)"
    and "\<forall>i<k. occ (r + int i * dr, c + int i * dc) = None \<and>
               inGrid sz (r + int i * dr, c + int i * dc)"
    and "dr \<noteq> 0 \<or> dc \<noteq> 0 \<or> k = 0"
  shows "walk w cs r c dr dc (g, occ) =
           Inl (IntersectionError w w' (r + int k * dr + 1) (c + int k * dc + 1))"
  using assms
proof (induction cs arbitrary: r c g occ k)
  case Nil
  then show ?case by simp
next
  case (Cons ch cs)
  show ?case
  proof (cases k)
    case 0
    with Cons.prems show ?thesis by simp
  next
    case (Suc j)
    let ?occ1 = "occ((r, c) \<mapsto> (w, toUpperCase [ch]))"
    have step: "dr \<noteq> 0 \<or> dc \<noteq> 0" using Cons.prems(5) Suc by simp
    have shift: "(r + dr + int i * dr, c + dc + int i * dc) =
                 (r + int (Suc i) * dr, c + int (Suc i) * dc)" for i
      by (simp add: algebra_simps)
    have away: "(r + int (Suc i) * dr, c + int (Suc i) * dc) \<noteq> (r, c)" for i
    proof
      assume "(r + int (Suc i) * dr, c + int (Suc i) * dc) = (r, c)"
      then have "int (Suc i) * dr = 0" "int (Suc i) * dc = 0" by simp_all
      then have "dr = 0" "dc = 0" by simp_all
      with step show False by simp
    qed
    from Cons.prems(4) Suc have first: "occ (r, c) = None" "inGrid sz (r, c)"
      by (auto dest: spec [of _ 0])
    from allStrings_readCell [OF Cons.prems(1) first(2)]
    obtain s where s: "readCell g r c = Some s" by blast
    let ?g1 = "if toUpperCase s \<noteq> toUpperCase [ch] then writeCell g r c (toUpperCase [ch]) else g"
    have g1: "allStrings sz ?g1"
      using Cons.prems(1) by (simp add: allStrings_writeCell)
    have j: "j < length cs" using Cons.prems(2) Suc by simp
    have hit: "?occ1 (r + dr + int j * dr, c + dc + int j * dc) = Some (w', x)"
      using Cons.prems(3) unfolding Suc shift [of j]
      by (simp only: fun_upd_apply away [of j] if_False)
    have before: "\<forall>i<j. ?occ1 (r + dr + int i * dr, c + dc + int i * dc) = None \<and>
                    inGrid sz (r + dr + int i * dr, c + dc + int i * dc)"
    proof (intro allI impI)
      fix i assume "i < j"
      then have "Suc i < k" using Suc by simp
      with Cons.prems(4) have "occ (r + int (Suc i) * dr, c + int (Suc i) * dc) = None \<and>
          inGrid sz (r + int (Suc i) * dr, c + int (Suc i) * dc)" by blast
      then show "?occ1 (r + dr + int i * dr, c + dc + int i * dc) = None \<and>
                    inGrid sz (r + dr + int i * dr, c + dc + int i * dc)"
        unfolding shift [of i] by (simp only: fun_upd_apply away [of i] if_False)
    qed
    have "walk w cs (r + dr) (c + dc) dr dc (?g1, ?occ1) =
            Inl (IntersectionError w w' (r + dr + int j * dr + 1) (c + dc + int j * dc + 1))"
      by (rule Cons.IH [OF g1 j hit before]) (use step in blast)
    moreover have "r + dr + int j * dr = r + int k * dr" "c + dc + int j * dc = c + int k * dc"
      using Suc by (simp_all add: algebra_simps)
    ultimately show ?thesis
      using first s by (simp add: Let_def)
  qed
qed

lemma validateSolution_allStrings:
  "validateSolution sz used sol (g, occ) = Inr (g', occ') \<Longrightarrow> allStrings sz g \<Longrightarrow> allStrings sz g'"
  by (auto simp: validateSolution_def split: if_splits dest: walk_allStrings)

lemma validateSolutions_allStrings:
  "validateSolutions sz used sols (g, occ) = Inr (g', occ') \<Longrightarrow> allStrings sz g \<Longrightarrow>
     allStrings sz g'"
proof (induction sols arbitrary: g occ)
  case Nil
  then show ?case by simp
next
  case (Cons a sols)
  from Cons.prems(1) obtain g1 occ1 where
    one: "validateSolution sz used a (g, occ) = Inr (g1, occ1)" and
    rest: "validateSolutions sz used sols (g1, occ1) = Inr (g', occ')"
    by (auto split: sum.splits)
  from validateSolution_allStrings [OF one Cons.prems(2)] have "allStrings sz g1" .
  with rest show ?case by (rule Cons.IH)
qed

lemma validateSolution_Inr_occ:
  assumes "validateSolution sz used sol (g, occ) = Inr (g', occ')"
  shows "occ \<subseteq>\<^sub>m occ' \<and> dom occ' = dom occ \<union> set (cellsOf sol) \<and>
         set (cellsOf sol) \<inter> dom occ = {} \<and>
         (\<forall>rc \<in> set (cellsOf sol). \<exists>x. occ' rc = Some (word sol, x))"
proof -
  from assms have "checksPass sz used sol" by (rule validateSolution_Inr_checks)
  with assms have w: "walk (word sol) (word sol) (startRow sol) (startCol sol)
         (stepRow sol) (stepCol sol) (g, occ) = Inr (g', occ')"
    by (simp add: validateSolution_checks stepRow_def stepCol_def)
  from walk_Inr_occ [OF w] show ?thesis
    unfolding set_cellsOf by blast
qed

lemma validateSolutions_Inr_occ:
  assumes "validateSolutions sz used sols (g, occ) = Inr (g', occ')"
  shows "occ \<subseteq>\<^sub>m occ' \<and> dom occ' = dom occ \<union> (\<Union>s \<in> set sols. set (cellsOf s)) \<and>
         (\<forall>s \<in> set sols. \<forall>rc \<in> set (cellsOf s). \<exists>x. occ' rc = Some (word s, x))"
  using assms
proof (induction sols arbitrary: g occ)
  case Nil
  then show ?case by simp
next
  case (Cons a sols)
  from Cons.prems obtain g1 occ1 where
    one: "validateSolution sz used a (g, occ) = Inr (g1, occ1)" and
    rest: "validateSolutions sz used sols (g1, occ1) = Inr (g', occ')"
    by (auto split: sum.splits)
  note A = validateSolution_Inr_occ [OF one]
  note B = Cons.IH [OF rest]
  have 1: "occ \<subseteq>\<^sub>m occ'"
    using A [THEN conjunct1] B [THEN conjunct1] by (rule map_le_trans)
  have 2: "dom occ' = dom occ \<union> (\<Union>s \<in> set (a # sols). set (cellsOf s))"
    using A [THEN conjunct2, THEN conjunct1] B [THEN conjunct2, THEN conjunct1] by auto
  have 3: "\<exists>x. occ' rc = Some (word s, x)" if "s \<in> set (a # sols)" "rc \<in> set (cellsOf s)" for s rc
  proof (cases "s \<in> set sols")
    case True
    with B that show ?thesis by blast
  next
    case False
    with that have "s = a" by simp
    with A that obtain x where "occ1 rc = Some (word s, x)" by blast
    moreover have "occ1 \<subseteq>\<^sub>m occ'" using B [THEN conjunct1] .
    ultimately show ?thesis by (metis domI map_le_def)
  qed
  from 1 2 3 show ?case by blast
qed

subsection \<open>The errors a run can end with\<close>

lemma walk_Inl_kind:
  "walk w cs r c dr dc st = Inl e \<Longrightarrow>
     e = TypeError \<or> (\<exists>w' r' c'. e = IntersectionError w w' r' c')"
proof (induction cs arbitrary: r c st)
  case Nil
  then show ?case by simp
next
  case (Cons ch cs)
  obtain g occ where st: "st = (g, occ)" by (cases st)
  from Cons.prems show ?case
    unfolding st by (auto simp: Let_def split: option.splits if_splits dest: Cons.IH)
qed

lemma validateSolution_Inl_kind:
  assumes "validateSolution sz used sol st = Inl e"
  shows "(e = CornerError (word sol) \<and> startRow sol = 0 \<and> startCol sol = 0) \<or>
         (e = NotInWordsUsed (word sol) \<and> word sol \<notin> set used) \<or>
         e = OutOfBounds (word sol) \<or>
         (e = LengthMismatch (word sol) (expectedLength sol) (length (word sol)) \<and>
            expectedLength sol \<noteq> int (length (word sol))) \<or>
         e = TypeError \<or> (\<exists>w' r' c'. e = IntersectionError (word sol) w' r' c')"
  using assms
  by (auto simp: validateSolution_def split: if_splits dest: walk_Inl_kind)

lemma validateSolutions_Inl_kind:
  assumes "validateSolutions sz used sols st = Inl e"
  shows "\<exists>sol \<in> set sols.
         (e = CornerError (word sol) \<and> startRow sol = 0 \<and> startCol sol = 0) \<or>
         (e = NotInWordsUsed (word sol) \<and> word sol \<notin> set used) \<or>
         e = OutOfBounds (word sol) \<or>
         (e = LengthMismatch (word sol) (expectedLength sol) (length (word sol)) \<and>
            expectedLength sol \<noteq> int (length (word sol))) \<or>
         e = TypeError \<or> (\<exists>w' r' c'. e = IntersectionError (word sol) w' r' c')"
  using assms
proof (induction sols arbitrary: st)
  case Nil
  then show ?case by simp
next
  case (Cons a sols)
  show ?case
  proof (cases "validateSolution sz used a st")
    case (Inl e')
    with Cons.prems have "e' = e" by simp
    with Inl validateSolution_Inl_kind [of sz used a st e] show ?thesis by simp
  next
    case (Inr st')
    with Cons.prems have "validateSolutions sz used sols st' = Inl e" by simp
    from Cons.IH [OF this] show ?thesis by auto
  qed
qed

subsection \<open>The first failing placement\<close>

lemma validate_split:
  assumes "solution d = pre @ sol # rest"
    and "validateAndCorrectPuzzleData (d\<lparr>solution := pre\<rparr>) sz = Inr out"
  obtains g1 occ1 where "\<not> shapeWrong (grid d) sz"
    and "validateSolutions sz (wordsUsed d) pre (grid d, Map.empty) = Inr (g1, occ1)"
    and "validateAndCorrectPuzzleData d sz =
           (case validateSolution sz (wordsUsed d) sol (g1, occ1) of
              Inl e \<Rightarrow> Inl e
            | Inr st' \<Rightarrow>
               (case validateSolutions sz (wordsUsed d) rest st' of
                  Inl e \<Rightarrow> Inl e
                | Inr st'' \<Rightarrow> Inr (d\<lparr>grid := fst st''\<rparr>)))"
proof -
  from assms(2) obtain st where sh: "\<not> shapeWrong (grid d) sz"
    and pre: "validateSolutions sz (wordsUsed d) pre (grid d, Map.empty) = Inr st"
    by (auto simp: validate_Inr_iff)
  obtain g1 occ1 where st: "st = (g1, occ1)" by (cases st)
  have "validateAndCorrectPuzzleData d sz =
           (case validateSolution sz (wordsUsed d) sol (g1, occ1) of
              Inl e \<Rightarrow> Inl e
            | Inr st' \<Rightarrow>
               (case validateSolutions sz (wordsUsed d) rest st' of
                  Inl e \<Rightarrow> Inl e
                | Inr st'' \<Rightarrow> Inr (d\<lparr>grid := fst st''\<rparr>)))"
    using sh pre unfolding st
    by (simp add: validateAndCorrectPuzzleData_def assms(1) validateSolutions_append
        split: sum.splits)
  with sh pre st that show thesis by blast
qed

lemma validate_Inr_all_checks:
  "validateAndCorrectPuzzleData d sz = Inr out \<Longrightarrow> sol \<in> set (solution d) \<Longrightarrow>
     checksPass sz (wordsUsed d) sol"
  by (auto simp: validate_Inr_iff dest: validateSolutions_Inr_checks)

lemma checksPass_steps:
  assumes "checksPass sz used q" "k < length (word q)"
  shows "stepRow q \<noteq> 0 \<or> stepCol q \<noteq> 0 \<or> k = 0"
proof (rule ccontr)
  assume "\<not> ?thesis"
  then have "endRow q = startRow q" "endCol q = startCol q" "k \<noteq> 0"
    by (simp_all add: stepRow_def stepCol_def sgn_if split: if_splits)
  with assms show False by (simp add: checksPass_def expectedLength_def)
qed

lemma validateSolutions_disjoint:
  assumes "validateSolutions sz used (xs @ a # ys @ b # zs) (g, occ) = Inr st"
  shows "set (cellsOf a) \<inter> set (cellsOf b) = {}"
proof -
  from assms obtain g1 occ1 where
    1: "validateSolutions sz used (xs @ a # ys) (g, occ) = Inr (g1, occ1)" and
    2: "validateSolutions sz used (b # zs) (g1, occ1) = Inr st"
    using validateSolutions_append [of sz used "xs @ a # ys" "b # zs" "(g, occ)"]
    by (auto split: sum.splits)
  from 2 obtain g2 occ2 where "validateSolution sz used b (g1, occ1) = Inr (g2, occ2)"
    by (auto split: sum.splits)
  from validateSolution_Inr_occ [OF this] have "set (cellsOf b) \<inter> dom occ1 = {}" by blast
  moreover from validateSolutions_Inr_occ [OF 1] have "set (cellsOf a) \<subseteq> dom occ1" by auto
  ultimately show ?thesis by blast
qed

subsection \<open>Repair\<close>

lemma upperUnit_fixed:
  "upperUnit c = [d] \<Longrightarrow> upperUnit d = [d]"
  unfolding upperUnit_def
  apply (simp split: if_splits)
  apply (auto simp: word_le_nat_alt unat_sub)
  done

lemma upperUnit_single: "c \<noteq> 0xDF \<Longrightarrow> \<exists>d. upperUnit c = [d]"
  by (simp add: upperUnit_def)

lemma toUpperCase_unit_idem: "toUpperCase (toUpperCase [c]) = toUpperCase [c]"
proof (cases "c = 0xDF")
  case True
  then show ?thesis by (simp add: toUpperCase_def upperUnit_def)
next
  case False
  from upperUnit_single [OF False] obtain d where d: "upperUnit c = [d]" by blast
  from upperUnit_fixed [OF d] d show ?thesis by (simp add: toUpperCase_def)
qed

lemma readCell_range:
  assumes "readCell g r c = Some s"
  shows "0 \<le> r" "r < int (length g)" "0 \<le> c" "c < int (length (g ! nat r))"
    "nat r < length g" "nat c < length (g ! nat r)"
proof -
  from assms show r: "0 \<le> r" "r < int (length g)"
    by (auto simp: readCell_def split: if_splits)
  with assms show c: "0 \<le> c" "c < int (length (g ! nat r))"
    by (auto simp: readCell_def Let_def split: if_splits)
  from r show "nat r < length g" by linarith
  from c show "nat c < length (g ! nat r)" by linarith
qed

lemma readCell_writeCell_same:
  assumes "readCell g r c = Some s"
  shows "readCell (writeCell g r c v) r c = Some v"
  using readCell_range [OF assms] by (simp add: readCell_def writeCell_def)

lemma readCell_writeCell_other:
  assumes "readCell g r c = Some s" "(r', c') \<noteq> (r, c)"
  shows "readCell (writeCell g r c v) r' c' = readCell g r' c'"
proof -
  note rg = readCell_range [OF assms(1)]
  show ?thesis
  proof (cases "0 \<le> r' \<and> r' < int (length g)")
    case False
    then show ?thesis by (auto simp: readCell_def writeCell_def)
  next
    case True
    show ?thesis
    proof (cases "r' = r")
      case False
      with True rg have "nat r' \<noteq> nat r" by linarith
      with True show ?thesis by (simp add: readCell_def writeCell_def)
    next
      case r: True
      with assms(2) have "c' \<noteq> c" by simp
      show ?thesis
      proof (cases "0 \<le> c' \<and> c' < int (length (g ! nat r))")
        case False
        with rg r show ?thesis by (auto simp: readCell_def writeCell_def)
      next
        case True
        with \<open>c' \<noteq> c\<close> rg have "nat c' \<noteq> nat c" by linarith
        with True rg r show ?thesis by (simp add: readCell_def writeCell_def)
      qed
    qed
  qed
qed

lemma shapeWrong_writeCell:
  assumes "\<not> shapeWrong g sz" "length v = 1"
  shows "\<not> shapeWrong (writeCell g r c v) sz"
proof (cases "nat r < length g")
  case False
  then have "writeCell g r c v = g" by (simp add: writeCell_def list_update_beyond not_less)
  with assms show ?thesis by simp
next
  case True
  from assms(2) obtain u where v: "v = [u]" by (cases v) auto
  from True have "g ! nat r \<in> set g" by simp
  with assms(1) have old: "int (length (g ! nat r)) = sz"
    "\<forall>cell \<in> set (g ! nat r). \<exists>ch. cell = JString [ch]"
    by (auto simp: shapeWrong_iff)
  have new_row: "int (length ((g ! nat r)[nat c := JString v])) = sz \<and>
      (\<forall>cell \<in> set ((g ! nat r)[nat c := JString v]). \<exists>ch. cell = JString [ch])"
    using old v by (auto dest!: subsetD [OF set_update_subset_insert])
  have "row = (g ! nat r)[nat c := JString v] \<or> row \<in> set g"
    if "row \<in> set (writeCell g r c v)" for row
    using that subsetD [OF set_update_subset_insert] by (fastforce simp: writeCell_def)
  with new_row assms(1) show ?thesis
    unfolding shapeWrong_iff by (fastforce simp: writeCell_def)
qed

lemma walk_shape:
  "walk w cs r c dr dc (g, occ) = Inr (g', occ') \<Longrightarrow> \<not> shapeWrong g sz \<Longrightarrow>
     \<forall>ch \<in> set cs. length (toUpperCase [ch]) = 1 \<Longrightarrow> \<not> shapeWrong g' sz"
proof (induction cs arbitrary: r c g occ)
  case Nil
  then show ?case by simp
next
  case (Cons ch cs)
  from Cons.prems(1) obtain s where
    rec: "walk w cs (r + dr) (c + dc) dr dc
           ((if toUpperCase s \<noteq> toUpperCase [ch] then writeCell g r c (toUpperCase [ch]) else g),
            occ((r, c) \<mapsto> (w, toUpperCase [ch]))) = Inr (g', occ')"
    by (auto simp: Let_def split: option.splits)
  have "\<not> shapeWrong (if toUpperCase s \<noteq> toUpperCase [ch]
                       then writeCell g r c (toUpperCase [ch]) else g) sz"
    using Cons.prems(2,3) by (simp add: shapeWrong_writeCell)
  with rec Cons.prems(3) show ?case by (intro Cons.IH) auto
qed

lemma validateSolutions_shape:
  "validateSolutions sz used sols (g, occ) = Inr (g', occ') \<Longrightarrow> \<not> shapeWrong g sz \<Longrightarrow>
     \<forall>sol \<in> set sols. \<forall>ch \<in> set (word sol). length (toUpperCase [ch]) = 1 \<Longrightarrow>
     \<not> shapeWrong g' sz"
proof (induction sols arbitrary: g occ)
  case Nil
  then show ?case by simp
next
  case (Cons a sols)
  from Cons.prems(1) obtain g1 occ1 where
    one: "validateSolution sz used a (g, occ) = Inr (g1, occ1)" and
    rest: "validateSolutions sz used sols (g1, occ1) = Inr (g', occ')"
    by (auto split: sum.splits)
  from one have "walk (word a) (word a) (startRow a) (startCol a)
         (sgn (endRow a - startRow a)) (sgn (endCol a - startCol a)) (g, occ) = Inr (g1, occ1)"
    by (simp add: validateSolution_checks [OF validateSolution_Inr_checks [OF one]])
  from walk_shape [OF this Cons.prems(2)] Cons.prems(3) have "\<not> shapeWrong g1 sz" by simp
  with rest Cons.prems(3) show ?case by (intro Cons.IH) auto
qed

lemma encodes_iff:
  "encodes g sol \<longleftrightarrow>
     (\<forall>i < length (word sol).
        spells g (startRow sol + int i * stepRow sol, startCol sol + int i * stepCol sol)
          (word sol ! i))"
proof -
  have len: "length (cellsOf sol) = length (word sol)" by (simp add: cellsOf_def)
  show ?thesis
    unfolding encodes_def list_all2_conv_all_nth len by (simp add: cellsOf_nth)
qed

lemma walk_spells:
  assumes "walk w cs r c dr dc (g, occ) = Inr (g', occ')"
  shows "(\<forall>i < length cs. spells g' (r + int i * dr, c + int i * dc) (cs ! i)) \<and>
         (\<forall>rc. rc \<notin> {(r + int i * dr, c + int i * dc) | i. i < length cs} \<longrightarrow>
               readCell g' (fst rc) (snd rc) = readCell g (fst rc) (snd rc))"
  using assms
proof (induction cs arbitrary: r c g occ)
  case Nil
  then show ?case by simp
next
  case (Cons ch cs)
  let ?e = "toUpperCase [ch]"
  let ?occ1 = "occ((r, c) \<mapsto> (w, ?e))"
  from Cons.prems obtain s where
    rd: "readCell g r c = Some s" and
    rec: "walk w cs (r + dr) (c + dc) dr dc
           ((if toUpperCase s \<noteq> ?e then writeCell g r c ?e else g), ?occ1) = Inr (g', occ')"
    by (auto simp: Let_def split: option.splits)
  let ?g1 = "if toUpperCase s \<noteq> ?e then writeCell g r c ?e else g"
  have shift: "(r + dr + int i * dr, c + dc + int i * dc) =
               (r + int (Suc i) * dr, c + int (Suc i) * dc)" for i
    by (simp add: algebra_simps)
  from Cons.IH [OF rec] have
    ih1: "\<forall>i < length cs. spells g' (r + dr + int i * dr, c + dc + int i * dc) (cs ! i)" and
    ih2: "\<forall>rc. rc \<notin> {(r + dr + int i * dr, c + dc + int i * dc) | i. i < length cs} \<longrightarrow>
               readCell g' (fst rc) (snd rc) = readCell ?g1 (fst rc) (snd rc)"
    by blast+
  from walk_Inr_occ [OF rec] have
    fresh: "\<forall>i < length cs. (r + dr + int i * dr, c + dc + int i * dc) \<notin> dom ?occ1"
    by blast
  have notin: "(r, c) \<notin> {(r + dr + int i * dr, c + dc + int i * dc) | i. i < length cs}"
    using fresh by auto
  have here1: "spells ?g1 (r, c) ch"
    using rd by (simp add: spells_def readCell_writeCell_same toUpperCase_unit_idem)
  from ih2 notin have "readCell g' r c = readCell ?g1 r c" by fastforce
  with here1 have here: "spells g' (r, c) ch" by (simp add: spells_def)
  have 1: "spells g' (r + int i * dr, c + int i * dc) ((ch # cs) ! i)"
    if "i < length (ch # cs)" for i
  proof (cases i)
    case 0
    with here show ?thesis by simp
  next
    case (Suc j)
    with that have "j < length cs" by simp
    with ih1 have "spells g' (r + dr + int j * dr, c + dc + int j * dc) (cs ! j)" by blast
    then show ?thesis unfolding Suc shift [of j] by simp
  qed
  have 2: "readCell g' (fst rc) (snd rc) = readCell g (fst rc) (snd rc)"
    if out: "rc \<notin> {(r + int i * dr, c + int i * dc) | i. i < length (ch # cs)}" for rc
  proof -
    have ne: "rc \<noteq> (r, c)"
    proof
      assume "rc = (r, c)"
      then have "rc = (r + int 0 * dr, c + int 0 * dc)" by simp
      with out show False by (metis (mono_tags, lifting) length_Cons mem_Collect_eq zero_less_Suc)
    qed
    have "rc \<notin> {(r + dr + int i * dr, c + dc + int i * dc) | i. i < length cs}"
    proof
      assume "rc \<in> {(r + dr + int i * dr, c + dc + int i * dc) | i. i < length cs}"
      then obtain j where j: "j < length cs" "rc = (r + dr + int j * dr, c + dc + int j * dc)"
        by blast
      then have "rc = (r + int (Suc j) * dr, c + int (Suc j) * dc)" "Suc j < length (ch # cs)"
        using shift [of j] by simp_all
      with out show False by blast
    qed
    with ih2 have "readCell g' (fst rc) (snd rc) = readCell ?g1 (fst rc) (snd rc)" by blast
    also have "\<dots> = readCell g (fst rc) (snd rc)"
      using readCell_writeCell_other [OF rd, of "fst rc" "snd rc" ?e] ne by (cases rc) auto
    finally show ?thesis .
  qed
  from 1 2 show ?case by blast
qed

lemma walk_again:
  assumes "walk w cs r c dr dc (g1, occ) = Inr (g1', occ')"
    and "\<forall>i < length cs. spells g2 (r + int i * dr, c + int i * dc) (cs ! i)"
  shows "walk w cs r c dr dc (g2, occ) = Inr (g2, occ')"
  using assms
proof (induction cs arbitrary: r c g1 occ)
  case Nil
  then show ?case by simp
next
  case (Cons ch cs)
  let ?e = "toUpperCase [ch]"
  let ?occ1 = "occ((r, c) \<mapsto> (w, ?e))"
  from Cons.prems(1) obtain s where
    free: "occ (r, c) = None" and
    rec: "walk w cs (r + dr) (c + dc) dr dc
           ((if toUpperCase s \<noteq> ?e then writeCell g1 r c ?e else g1), ?occ1) = Inr (g1', occ')"
    by (auto simp: Let_def split: option.splits)
  have shift: "(r + dr + int i * dr, c + dc + int i * dc) =
               (r + int (Suc i) * dr, c + int (Suc i) * dc)" for i
    by (simp add: algebra_simps)
  from Cons.prems(2) have "spells g2 (r + int 0 * dr, c + int 0 * dc) ((ch # cs) ! 0)"
    by (metis length_Cons zero_less_Suc)
  then obtain s2 where s2: "readCell g2 r c = Some s2" "toUpperCase s2 = ?e"
    by (auto simp: spells_def split: option.splits)
  have "\<forall>i < length cs. spells g2 (r + dr + int i * dr, c + dc + int i * dc) (cs ! i)"
  proof (intro allI impI)
    fix i assume "i < length cs"
    then have "Suc i < length (ch # cs)" by simp
    with Cons.prems(2) have "spells g2 (r + int (Suc i) * dr, c + int (Suc i) * dc)
        ((ch # cs) ! Suc i)" by blast
    then show "spells g2 (r + dr + int i * dr, c + dc + int i * dc) (cs ! i)"
      unfolding shift [of i] by simp
  qed
  from Cons.IH [OF rec this] have "walk w cs (r + dr) (c + dc) dr dc (g2, ?occ1) = Inr (g2, occ')" .
  with free s2 show ?case by (simp add: Let_def)
qed

lemma validateSolution_walk:
  assumes "validateSolution sz used sol st = Inr st'"
  shows "walk (word sol) (word sol) (startRow sol) (startCol sol) (stepRow sol) (stepCol sol) st =
           Inr st'"
  using assms validateSolution_checks [OF validateSolution_Inr_checks [OF assms]]
  by (simp add: stepRow_def stepCol_def)

lemma validateSolutions_Inr_fresh:
  assumes "validateSolutions sz used sols (g, occ) = Inr (g', occ')"
  shows "\<forall>sol \<in> set sols. set (cellsOf sol) \<inter> dom occ = {}"
  using assms
proof (induction sols arbitrary: g occ)
  case Nil
  then show ?case by simp
next
  case (Cons a sols)
  from Cons.prems obtain g1 occ1 where
    one: "validateSolution sz used a (g, occ) = Inr (g1, occ1)" and
    rest: "validateSolutions sz used sols (g1, occ1) = Inr (g', occ')"
    by (auto split: sum.splits)
  note A = validateSolution_Inr_occ [OF one]
  from A have sub: "dom occ \<subseteq> dom occ1" by auto
  from Cons.IH [OF rest] sub have "\<forall>sol \<in> set sols. set (cellsOf sol) \<inter> dom occ = {}"
    by fast
  with A show ?case by simp
qed

lemma validateSolutions_encodes:
  assumes "validateSolutions sz used sols (g, occ) = Inr (g', occ')"
  shows "(\<forall>sol \<in> set sols. encodes g' sol) \<and>
         (\<forall>rc. rc \<notin> (\<Union>sol \<in> set sols. set (cellsOf sol)) \<longrightarrow>
               readCell g' (fst rc) (snd rc) = readCell g (fst rc) (snd rc))"
  using assms
proof (induction sols arbitrary: g occ)
  case Nil
  then show ?case by simp
next
  case (Cons a sols)
  from Cons.prems obtain g1 occ1 where
    one: "validateSolution sz used a (g, occ) = Inr (g1, occ1)" and
    rest: "validateSolutions sz used sols (g1, occ1) = Inr (g', occ')"
    by (auto split: sum.splits)
  note W = walk_spells [OF validateSolution_walk [OF one]]
  note IH = Cons.IH [OF rest]
  from validateSolution_Inr_occ [OF one] have own: "set (cellsOf a) \<subseteq> dom occ1" by auto
  from validateSolutions_Inr_fresh [OF rest] own
  have apart: "\<forall>rc \<in> set (cellsOf a). rc \<notin> (\<Union>sol \<in> set sols. set (cellsOf sol))"
    by fast
  have a: "encodes g' a"
    unfolding encodes_iff
  proof (intro allI impI)
    fix i assume i: "i < length (word a)"
    let ?rc = "(startRow a + int i * stepRow a, startCol a + int i * stepCol a)"
    from i have "?rc \<in> set (cellsOf a)" unfolding set_cellsOf by blast
    with apart IH have "readCell g' (fst ?rc) (snd ?rc) = readCell g1 (fst ?rc) (snd ?rc)"
      by blast
    moreover from W i have "spells g1 ?rc (word a ! i)" by blast
    ultimately show "spells g' ?rc (word a ! i)" by (simp add: spells_def)
  qed
  have b: "readCell g' (fst rc) (snd rc) = readCell g (fst rc) (snd rc)"
    if "rc \<notin> (\<Union>sol \<in> set (a # sols). set (cellsOf sol))" for rc
  proof -
    from that have 1: "rc \<notin> (\<Union>sol \<in> set sols. set (cellsOf sol))"
      and 2: "rc \<notin> {(startRow a + int i * stepRow a, startCol a + int i * stepCol a) | i.
                  i < length (word a)}"
      unfolding set_cellsOf [symmetric] by auto
    from IH 1 have "readCell g' (fst rc) (snd rc) = readCell g1 (fst rc) (snd rc)" by blast
    also from W 2 have "\<dots> = readCell g (fst rc) (snd rc)" by blast
    finally show ?thesis .
  qed
  from a b IH show ?case by simp
qed

lemma validateSolutions_again:
  assumes "validateSolutions sz used sols (g1, occ) = Inr (g1', occ')"
    and "\<forall>sol \<in> set sols. encodes g2 sol"
  shows "validateSolutions sz used sols (g2, occ) = Inr (g2, occ')"
  using assms
proof (induction sols arbitrary: g1 occ)
  case Nil
  then show ?case by simp
next
  case (Cons a sols)
  from Cons.prems(1) obtain gm occ1 where
    one: "validateSolution sz used a (g1, occ) = Inr (gm, occ1)" and
    rest: "validateSolutions sz used sols (gm, occ1) = Inr (g1', occ')"
    by (auto split: sum.splits)
  note ok = validateSolution_Inr_checks [OF one]
  from Cons.prems(2) have "encodes g2 a" by simp
  then have "\<forall>i < length (word a).
      spells g2 (startRow a + int i * stepRow a, startCol a + int i * stepCol a) (word a ! i)"
    by (simp add: encodes_iff)
  from walk_again [OF validateSolution_walk [OF one] this]
  have "validateSolution sz used a (g2, occ) = Inr (g2, occ1)"
    by (simp add: validateSolution_checks [OF ok] stepRow_def stepCol_def)
  moreover from Cons.prems(2) have "validateSolutions sz used sols (g2, occ1) = Inr (g2, occ')"
    by (intro Cons.IH [OF rest]) simp
  ultimately show ?case by simp
qed

text \<open>
  What the repair does when every letter of the placements has a one-unit upper case: the
  returned grid encodes every placement, and validating the returned puzzle returns it
  again. The letters and the cells are taken from U+0000 to U+00FF, where the table of
  \<open>upperUnit\<close> is the one of the language; U+00DF is left out.
\<close>

lemma repair_idempotent_single_units:
  assumes "validateAndCorrectPuzzleData d sz = Inr out"
    and "\<forall>sol \<in> set (solution d). \<forall>ch \<in> set (word sol). ch \<le> 0xFF \<and> ch \<noteq> 0xDF"
    and "\<forall>row \<in> set (grid d). \<forall>s. JString s \<in> set row \<longrightarrow> (\<forall>u \<in> set s. u \<le> 0xFF)"
  shows "(\<forall>sol \<in> set (solution d). encodes (grid out) sol) \<and>
         validateAndCorrectPuzzleData out sz = Inr out"
proof -
  from assms(1) obtain g' occ' where sh: "\<not> shapeWrong (grid d) sz"
    and run: "validateSolutions sz (wordsUsed d) (solution d) (grid d, Map.empty) = Inr (g', occ')"
    and out: "out = d\<lparr>grid := g'\<rparr>"
    by (auto simp: validate_Inr_iff)
  have single: "\<forall>sol \<in> set (solution d). \<forall>ch \<in> set (word sol). length (toUpperCase [ch]) = 1"
  proof (intro ballI)
    fix sol ch assume "sol \<in> set (solution d)" "ch \<in> set (word sol)"
    with assms(2) have "ch \<noteq> 0xDF" by blast
    from upperUnit_single [OF this] show "length (toUpperCase [ch]) = 1"
      by (auto simp: toUpperCase_def)
  qed
  from validateSolutions_encodes [OF run] have enc: "\<forall>sol \<in> set (solution d). encodes g' sol"
    by blast
  from validateSolutions_shape [OF run sh single] have sh': "\<not> shapeWrong g' sz" .
  from validateSolutions_again [OF run enc]
  have "validateSolutions sz (wordsUsed d) (solution d) (g', Map.empty) = Inr (g', occ')" .
  with sh' have "validateAndCorrectPuzzleData out sz = Inr out"
    by (simp add: validateAndCorrectPuzzleData_def out)
  with enc show ?thesis by (simp add: out)
qed

lemma straight_walk_inGrid:
  assumes "checksPass sz used sol"
    and "endRow sol = startRow sol \<or> endCol sol = startCol sol \<or>
         \<bar>endRow sol - startRow sol\<bar> = \<bar>endCol sol - startCol sol\<bar>"
    and "rc \<in> set (cellsOf sol)"
  shows "inGrid sz rc"
proof -
  from assms(3) obtain i where i: "i < length (word sol)"
    and rc: "rc = (startRow sol + int i * stepRow sol, startCol sol + int i * stepCol sol)"
    unfolding set_cellsOf by blast
  from assms(1) i have bound: "int i \<le> max \<bar>endRow sol - startRow sol\<bar> \<bar>endCol sol - startCol sol\<bar>"
    by (simp add: checksPass_def expectedLength_def)
  have between: "0 \<le> s + int i * sgn (e - s) \<and> s + int i * sgn (e - s) < sz"
    if "0 \<le> s" "s < sz" "0 \<le> e" "e < sz" "e = s \<or> int i \<le> \<bar>e - s\<bar>" for s e :: int
  proof (cases "e = s")
    case True
    with that show ?thesis by simp
  next
    case False
    with that(5) have le: "int i \<le> \<bar>e - s\<bar>" by simp
    show ?thesis
    proof (cases "s < e")
      case True
      then have "sgn (e - s) = 1" by simp
      with le True that show ?thesis by simp
    next
      case ge: False
      with False have "sgn (e - s) = -1" by simp
      with le ge that show ?thesis by simp
    qed
  qed
  have row: "endRow sol = startRow sol \<or> int i \<le> \<bar>endRow sol - startRow sol\<bar>"
    and col: "endCol sol = startCol sol \<or> int i \<le> \<bar>endCol sol - startCol sol\<bar>"
    using bound assms(2) by auto
  from assms(1) between [OF _ _ _ _ row] between [OF _ _ _ _ col] show ?thesis
    by (simp add: rc inGrid_def stepRow_def stepCol_def checksPass_def)
qed

subsection \<open>When the validation succeeds\<close>

lemma walk_succeeds:
  assumes "allStrings sz g"
    and "\<forall>i < length cs. occ (r + int i * dr, c + int i * dc) = None \<and>
           inGrid sz (r + int i * dr, c + int i * dc)"
    and "dr \<noteq> 0 \<or> dc \<noteq> 0 \<or> length cs \<le> 1"
  shows "\<exists>g' occ'. walk w cs r c dr dc (g, occ) = Inr (g', occ')"
  using assms
proof (induction cs arbitrary: r c g occ)
  case Nil
  then show ?case by simp
next
  case (Cons ch cs)
  let ?occ1 = "occ((r, c) \<mapsto> (w, toUpperCase [ch]))"
  from Cons.prems(2) have first: "occ (r, c) = None" "inGrid sz (r, c)"
    by (auto dest: spec [of _ 0])
  from allStrings_readCell [OF Cons.prems(1) first(2)]
  obtain s where s: "readCell g r c = Some s" by blast
  let ?g1 = "if toUpperCase s \<noteq> toUpperCase [ch] then writeCell g r c (toUpperCase [ch]) else g"
  have g1: "allStrings sz ?g1"
    using Cons.prems(1) by (simp add: allStrings_writeCell)
  have shift: "(r + dr + int i * dr, c + dc + int i * dc) =
               (r + int (Suc i) * dr, c + int (Suc i) * dc)" for i
    by (simp add: algebra_simps)
  have rest: "\<forall>i < length cs. ?occ1 (r + dr + int i * dr, c + dc + int i * dc) = None \<and>
                inGrid sz (r + dr + int i * dr, c + dc + int i * dc)"
  proof (intro allI impI)
    fix i assume i: "i < length cs"
    then have step: "dr \<noteq> 0 \<or> dc \<noteq> 0" using Cons.prems(3) by auto
    have away: "(r + int (Suc i) * dr, c + int (Suc i) * dc) \<noteq> (r, c)"
    proof
      assume "(r + int (Suc i) * dr, c + int (Suc i) * dc) = (r, c)"
      then have "int (Suc i) * dr = 0" "int (Suc i) * dc = 0" by simp_all
      then have "dr = 0" "dc = 0" by simp_all
      with step show False by simp
    qed
    from i have "Suc i < length (ch # cs)" by simp
    with Cons.prems(2) have "occ (r + int (Suc i) * dr, c + int (Suc i) * dc) = None \<and>
        inGrid sz (r + int (Suc i) * dr, c + int (Suc i) * dc)" by blast
    then show "?occ1 (r + dr + int i * dr, c + dc + int i * dc) = None \<and>
                inGrid sz (r + dr + int i * dr, c + dc + int i * dc)"
      unfolding shift [of i] by (simp only: fun_upd_apply away if_False)
  qed
  have "dr \<noteq> 0 \<or> dc \<noteq> 0 \<or> length cs \<le> 1" using Cons.prems(3) by auto
  from Cons.IH [OF g1 rest this]
  obtain g' occ' where "walk w cs (r + dr) (c + dc) dr dc (?g1, ?occ1) = Inr (g', occ')"
    by blast
  with first s show ?case by (simp add: Let_def)
qed

lemma validateSolutions_succeeds:
  assumes "allStrings sz g"
    and "\<forall>sol \<in> set sols. checksPass sz used sol \<and> (\<forall>rc \<in> set (cellsOf sol). inGrid sz rc) \<and>
           set (cellsOf sol) \<inter> dom occ = {}"
    and "pairwiseApart sols"
  shows "\<exists>st. validateSolutions sz used sols (g, occ) = Inr st"
  using assms
proof (induction sols arbitrary: g occ)
  case Nil
  then show ?case by simp
next
  case (Cons a sols)
  from Cons.prems(2) have ok: "checksPass sz used a"
    and inside: "\<forall>rc \<in> set (cellsOf a). inGrid sz rc"
    and free: "set (cellsOf a) \<inter> dom occ = {}"
    by simp_all
  have cells: "\<forall>i < length (word a).
      occ (startRow a + int i * stepRow a, startCol a + int i * stepCol a) = None \<and>
      inGrid sz (startRow a + int i * stepRow a, startCol a + int i * stepCol a)"
  proof (intro allI impI)
    fix i assume "i < length (word a)"
    then have "(startRow a + int i * stepRow a, startCol a + int i * stepCol a) \<in> set (cellsOf a)"
      unfolding set_cellsOf by blast
    with inside free
    show "occ (startRow a + int i * stepRow a, startCol a + int i * stepCol a) = None \<and>
      inGrid sz (startRow a + int i * stepRow a, startCol a + int i * stepCol a)"
      by blast
  qed
  have steps: "stepRow a \<noteq> 0 \<or> stepCol a \<noteq> 0 \<or> length (word a) \<le> 1"
  proof (cases "length (word a) \<le> 1")
    case True
    then show ?thesis by simp
  next
    case False
    then have "1 < length (word a)" by simp
    from checksPass_steps [OF ok this] show ?thesis by auto
  qed
  from walk_succeeds [OF Cons.prems(1) cells steps, of "word a"]
  obtain g1 occ1 where w: "walk (word a) (word a) (startRow a) (startCol a)
      (stepRow a) (stepCol a) (g, occ) = Inr (g1, occ1)"
    by blast
  then have one: "validateSolution sz used a (g, occ) = Inr (g1, occ1)"
    by (simp add: validateSolution_checks [OF ok] stepRow_def stepCol_def)
  from validateSolution_allStrings [OF one Cons.prems(1)] have g1: "allStrings sz g1" .
  from validateSolution_Inr_occ [OF one] have dm: "dom occ1 = dom occ \<union> set (cellsOf a)"
    by blast
  have "\<forall>sol \<in> set sols. checksPass sz used sol \<and> (\<forall>rc \<in> set (cellsOf sol). inGrid sz rc) \<and>
           set (cellsOf sol) \<inter> dom occ1 = {}"
  proof
    fix sol assume sol: "sol \<in> set sols"
    with Cons.prems(2) have "checksPass sz used sol" "\<forall>rc \<in> set (cellsOf sol). inGrid sz rc"
      "set (cellsOf sol) \<inter> dom occ = {}"
      by simp_all
    moreover from Cons.prems(3) sol have "set (cellsOf a) \<inter> set (cellsOf sol) = {}" by simp
    ultimately show "checksPass sz used sol \<and> (\<forall>rc \<in> set (cellsOf sol). inGrid sz rc) \<and>
           set (cellsOf sol) \<inter> dom occ1 = {}"
      unfolding dm by blast
  qed
  moreover from Cons.prems(3) have "pairwiseApart sols" by simp
  ultimately obtain st where "validateSolutions sz used sols (g1, occ1) = Inr st"
    using Cons.IH [OF g1] by blast
  with one show ?case by simp
qed

lemma walk_Inr_inGrid:
  assumes "walk w cs r c dr dc (g, occ) = Inr (g', occ')" "allStrings sz g"
  shows "\<forall>i < length cs. inGrid sz (r + int i * dr, c + int i * dc)"
  using assms
proof (induction cs arbitrary: r c g occ)
  case Nil
  then show ?case by simp
next
  case (Cons ch cs)
  from Cons.prems(1) obtain s where
    rd: "readCell g r c = Some s" and
    rec: "walk w cs (r + dr) (c + dc) dr dc
           ((if toUpperCase s \<noteq> toUpperCase [ch] then writeCell g r c (toUpperCase [ch]) else g),
            occ((r, c) \<mapsto> (w, toUpperCase [ch]))) = Inr (g', occ')"
    by (auto simp: Let_def split: option.splits)
  have "allStrings sz (if toUpperCase s \<noteq> toUpperCase [ch]
                       then writeCell g r c (toUpperCase [ch]) else g)"
    using Cons.prems(2) by (simp add: allStrings_writeCell)
  from Cons.IH [OF rec this]
  have ih: "\<forall>i < length cs. inGrid sz (r + dr + int i * dr, c + dc + int i * dc)" .
  have here: "inGrid sz (r, c)" using Cons.prems(2) rd by (rule readCell_inGrid)
  show ?case
  proof (intro allI impI)
    fix i assume "i < length (ch # cs)"
    show "inGrid sz (r + int i * dr, c + int i * dc)"
    proof (cases i)
      case 0
      with here show ?thesis by simp
    next
      case (Suc j)
      with \<open>i < length (ch # cs)\<close> ih
      have "inGrid sz (r + dr + int j * dr, c + dc + int j * dc)" by simp
      then show ?thesis unfolding Suc by (simp add: algebra_simps)
    qed
  qed
qed

lemma pairwiseApart_iff:
  "pairwiseApart sols \<longleftrightarrow>
     (\<forall>xs a ys b zs. sols = xs @ a # ys @ b # zs \<longrightarrow> set (cellsOf a) \<inter> set (cellsOf b) = {})"
proof (induction sols)
  case Nil
  then show ?case by simp
next
  case (Cons x sols)
  show ?case
  proof
    assume L: "pairwiseApart (x # sols)"
    show "\<forall>xs a ys b zs. x # sols = xs @ a # ys @ b # zs \<longrightarrow>
        set (cellsOf a) \<inter> set (cellsOf b) = {}"
    proof (intro allI impI)
      fix xs a ys b zs assume eq: "x # sols = xs @ a # ys @ b # zs"
      show "set (cellsOf a) \<inter> set (cellsOf b) = {}"
      proof (cases xs)
        case Nil
        with eq have "a = x" "b \<in> set sols" by auto
        with L show ?thesis by simp
      next
        case (Cons x' xs')
        with eq have "sols = xs' @ a # ys @ b # zs" by simp
        moreover from L have "pairwiseApart sols" by simp
        ultimately show ?thesis using Cons.IH by blast
      qed
    qed
  next
    assume R: "\<forall>xs a ys b zs. x # sols = xs @ a # ys @ b # zs \<longrightarrow>
        set (cellsOf a) \<inter> set (cellsOf b) = {}"
    have "set (cellsOf x) \<inter> set (cellsOf s) = {}" if "s \<in> set sols" for s
    proof -
      from that obtain ys zs where "sols = ys @ s # zs" by (auto simp: in_set_conv_decomp)
      then have "x # sols = [] @ x # ys @ s # zs" by simp
      with R show ?thesis by blast
    qed
    moreover have "pairwiseApart sols"
      unfolding Cons.IH
    proof (intro allI impI)
      fix xs a ys b zs assume "sols = xs @ a # ys @ b # zs"
      then have "x # sols = (x # xs) @ a # ys @ b # zs" by simp
      with R show "set (cellsOf a) \<inter> set (cellsOf b) = {}" by blast
    qed
    ultimately show "pairwiseApart (x # sols)" by simp
  qed
qed

lemma validateSolutions_Inr_inGrid:
  assumes "validateSolutions sz used sols (g, occ) = Inr (g', occ')" "allStrings sz g"
  shows "\<forall>sol \<in> set sols. \<forall>rc \<in> set (cellsOf sol). inGrid sz rc"
  using assms
proof (induction sols arbitrary: g occ)
  case Nil
  then show ?case by simp
next
  case (Cons a sols)
  from Cons.prems(1) obtain g1 occ1 where
    one: "validateSolution sz used a (g, occ) = Inr (g1, occ1)" and
    rest: "validateSolutions sz used sols (g1, occ1) = Inr (g', occ')"
    by (auto split: sum.splits)
  from walk_Inr_inGrid [OF validateSolution_walk [OF one] Cons.prems(2)]
  have "\<forall>rc \<in> set (cellsOf a). inGrid sz rc"
    unfolding set_cellsOf by blast
  moreover from validateSolution_allStrings [OF one Cons.prems(2)] have "allStrings sz g1" .
  from Cons.IH [OF rest this] have "\<forall>sol \<in> set sols. \<forall>rc \<in> set (cellsOf sol). inGrid sz rc" .
  ultimately show ?case by simp
qed

lemma validate_succeeds_iff:
  "(\<exists>out. validateAndCorrectPuzzleData d sz = Inr out) \<longleftrightarrow>
     \<not> shapeWrong (grid d) sz \<and>
     (\<forall>sol \<in> set (solution d).
        checksPass sz (wordsUsed d) sol \<and> (\<forall>rc \<in> set (cellsOf sol). inGrid sz rc)) \<and>
     pairwiseApart (solution d)"
proof
  assume "\<exists>out. validateAndCorrectPuzzleData d sz = Inr out"
  then obtain g' occ' where sh: "\<not> shapeWrong (grid d) sz"
    and run: "validateSolutions sz (wordsUsed d) (solution d) (grid d, Map.empty) = Inr (g', occ')"
    by (auto simp: validate_Inr_iff)
  have "\<forall>sol \<in> set (solution d). checksPass sz (wordsUsed d) sol"
    using validateSolutions_Inr_checks [OF run] by blast
  moreover note validateSolutions_Inr_inGrid [OF run shape_allStrings [OF sh]]
  moreover have "pairwiseApart (solution d)"
    unfolding pairwiseApart_iff
  proof (intro allI impI)
    fix xs a ys b zs assume "solution d = xs @ a # ys @ b # zs"
    with run show "set (cellsOf a) \<inter> set (cellsOf b) = {}"
      by (simp add: validateSolutions_disjoint)
  qed
  ultimately show "\<not> shapeWrong (grid d) sz \<and>
     (\<forall>sol \<in> set (solution d).
        checksPass sz (wordsUsed d) sol \<and> (\<forall>rc \<in> set (cellsOf sol). inGrid sz rc)) \<and>
     pairwiseApart (solution d)"
    using sh by blast
next
  assume a: "\<not> shapeWrong (grid d) sz \<and>
     (\<forall>sol \<in> set (solution d).
        checksPass sz (wordsUsed d) sol \<and> (\<forall>rc \<in> set (cellsOf sol). inGrid sz rc)) \<and>
     pairwiseApart (solution d)"
  then have "\<forall>sol \<in> set (solution d). checksPass sz (wordsUsed d) sol \<and>
      (\<forall>rc \<in> set (cellsOf sol). inGrid sz rc) \<and> set (cellsOf sol) \<inter> dom Map.empty = {}"
    by simp
  from validateSolutions_succeeds [OF shape_allStrings this] a
  obtain st where "validateSolutions sz (wordsUsed d) (solution d) (grid d, Map.empty) = Inr st"
    by blast
  with a show "\<exists>out. validateAndCorrectPuzzleData d sz = Inr out"
    by (simp add: validateAndCorrectPuzzleData_def)
qed

subsection \<open>The overlay walk\<close>

lemma highlightWalk_off_line:
  assumes "highlightWalk r c eRow eCol dRow dCol color cellMap = Some m"
  shows "\<exists>n. eRow = r + int n * dRow \<and> eCol = c + int n * dCol"
proof (rule highlightWalk.raw_induct
    [where P = "\<lambda>r c eRow eCol dRow dCol color cellMap m.
                  \<exists>n. eRow = r + int n * dRow \<and> eCol = c + int n * dCol", OF _ assms])
  fix f :: "int \<Rightarrow> int \<Rightarrow> int \<Rightarrow> int \<Rightarrow> int \<Rightarrow> int \<Rightarrow> nat \<Rightarrow> ((int \<times> int) \<rightharpoonup> nat) \<Rightarrow>
     ((int \<times> int) \<rightharpoonup> nat) option"
  fix r c eRow eCol dRow dCol :: int and color :: nat and cellMap m :: "(int \<times> int) \<rightharpoonup> nat"
  assume IH: "\<And>r c eRow eCol dRow dCol color cellMap m.
      f r c eRow eCol dRow dCol color cellMap = Some m \<Longrightarrow>
      \<exists>n. eRow = r + int n * dRow \<and> eCol = c + int n * dCol"
  assume step: "(let cellMap' = cellMap((r, c) \<mapsto> color) in
      if r = eRow \<and> c = eCol then Some cellMap'
      else f (r + dRow) (c + dCol) eRow eCol dRow dCol color cellMap') = Some m"
  show "\<exists>n. eRow = r + int n * dRow \<and> eCol = c + int n * dCol"
  proof (cases "r = eRow \<and> c = eCol")
    case True
    then have "eRow = r + int 0 * dRow \<and> eCol = c + int 0 * dCol" by simp
    then show ?thesis by (rule exI)
  next
    case False
    with step have "f (r + dRow) (c + dCol) eRow eCol dRow dCol color (cellMap((r, c) \<mapsto> color)) = Some m"
      by (simp add: Let_def)
    from IH [OF this] obtain n where
      "eRow = r + dRow + int n * dRow \<and> eCol = c + dCol + int n * dCol" by blast
    then have "eRow = r + int (Suc n) * dRow \<and> eCol = c + int (Suc n) * dCol"
      by (simp add: algebra_simps)
    then show ?thesis by (rule exI)
  qed
qed

lemma highlight_never_ends:
  "highlightPlacement (placement ''GOAT'' 0 1 1 4) 0 Map.empty = None"
proof (rule ccontr)
  assume "highlightPlacement (placement ''GOAT'' 0 1 1 4) 0 Map.empty \<noteq> None"
  then obtain m where "highlightWalk 0 1 1 4 1 1 0 Map.empty = Some m"
    by (auto simp: highlightPlacement_def placement_def)
  from highlightWalk_off_line [OF this] obtain n where "(1::int) = 0 + int n * 1 \<and> (4::int) = 1 + int n * 1"
    by blast
  then show False by linarith
qed

lemma highlight_straight:
  "highlightPlacement (placement ''CAT'' 1 1 1 3) 0 Map.empty =
     Some [(1, 1) \<mapsto> 0, (1, 2) \<mapsto> 0, (1, 3) \<mapsto> 0]"
  by (simp add: highlightPlacement_def placement_def highlightWalk.simps)

subsection \<open>The retry loop\<close>

lemma generateWordSearch_unrolled:
  "generateWordSearch gen sz =
     (case attemptResult (gen 1) sz of
        Inr p \<Rightarrow> \<lparr>requests = 1, warnings = [], outcome = Inr p\<rparr>
      | Inl e1 \<Rightarrow>
        (case attemptResult (gen 2) sz of
           Inr p \<Rightarrow> \<lparr>requests = 2, warnings = [(1, e1)], outcome = Inr p\<rparr>
         | Inl e2 \<Rightarrow>
           (case attemptResult (gen 3) sz of
              Inr p \<Rightarrow> \<lparr>requests = 3, warnings = [(1, e1), (2, e2)], outcome = Inr p\<rparr>
            | Inl e3 \<Rightarrow> \<lparr>requests = 3, warnings = [(1, e1), (2, e2), (3, e3)],
                          outcome = Inl (ExhaustedRetries 3)\<rparr>)))"
proof -
  have [simp]: "Suc (Suc 0) = 2" "Suc 2 = 3" by simp_all
  show ?thesis
    unfolding generateWordSearch_def
    by (simp add: MAX_RETRIES_def Let_def split: sum.splits)
qed

subsection \<open>The store\<close>

lemma length_layout: "length (layout s0 g) = length s0 + length g + 1"
  by (simp add: layout_def)

lemma take_layout: "take (length s0) (layout s0 g) = s0"
  by (simp add: layout_def)

lemma refsAt_layout:
  "refsAt (layout s0 g) (length s0 + length g) = Some [length s0..<length s0 + length g]"
  by (simp add: refsAt_def layout_def nth_append)

lemma cellsAt_layout:
  "i < length g \<Longrightarrow> cellsAt (layout s0 g) (length s0 + i) = Some (g ! i)"
  by (simp add: cellsAt_def layout_def nth_append)

lemma readCellH_layout:
  "readCellH (layout s0 g) (length s0 + length g) r c = readCell g r c"
proof (cases "0 \<le> r \<and> r < int (length g)")
  case True
  then have "nat r < length g" by linarith
  with True show ?thesis
    by (simp add: readCellH_def readCell_def refsAt_layout cellsAt_layout Let_def)
next
  case False
  then show ?thesis
    by (auto simp: readCellH_def readCell_def refsAt_layout)
qed

lemma writeCellH_layout:
  assumes "readCell g r c = Some x"
  shows "writeCellH (layout s0 g) (length s0 + length g) r c v = layout s0 (writeCell g r c v)"
proof -
  from assms have r: "0 \<le> r" "r < int (length g)"
    by (auto simp: readCell_def split: if_splits)
  then have n: "nat r < length g" by linarith
  have "writeCellH (layout s0 g) (length s0 + length g) r c v =
          (layout s0 g)[length s0 + nat r := Cells ((g ! nat r)[nat c := JString v])]"
    using n by (simp add: writeCellH_def refsAt_layout cellsAt_layout)
  also have "\<dots> = layout s0 (writeCell g r c v)"
    using n by (simp add: layout_def writeCell_def list_update_append map_update)
  finally show ?thesis .
qed

lemma length_writeCell: "length (writeCell g r c v) = length g"
  by (simp add: writeCell_def)

lemma simulatesI:
  "length g' = n \<Longrightarrow> fst heap = layout s0 g' \<Longrightarrow>
   (case pure of Inl e \<Rightarrow> snd heap = Inl e | Inr st \<Rightarrow> fst st = g' \<and> snd heap = Inr (snd st)) \<Longrightarrow>
   simulates s0 n pure heap"
  unfolding simulates_def by blast

lemma walkH_simulates:
  "simulates s0 (length g) (walk w cs r c dr dc (g, occ))
     (walkH (length s0 + length g) w cs r c dr dc (layout s0 g, occ))"
proof (induction cs arbitrary: r c g occ)
  case Nil
  show ?case by (rule simulatesI [of g]) simp_all
next
  case (Cons ch cs)
  show ?case
  proof (cases "occ (r, c)")
    case (Some a)
    show ?thesis by (rule simulatesI [of g]) (simp_all add: Some)
  next
    case None
    show ?thesis
    proof (cases "readCell g r c")
      case rd: None
      show ?thesis by (rule simulatesI [of g]) (simp_all add: None rd readCellH_layout)
    next
      case rd: (Some x)
      let ?g1 = "if toUpperCase x \<noteq> toUpperCase [ch]
                 then writeCell g r c (toUpperCase [ch]) else g"
      let ?occ1 = "occ((r, c) \<mapsto> (w, toUpperCase [ch]))"
      have len: "length ?g1 = length g" by (simp add: length_writeCell)
      have pure: "walk w (ch # cs) r c dr dc (g, occ) =
                  walk w cs (r + dr) (c + dc) dr dc (?g1, ?occ1)"
        using None rd by (simp add: Let_def)
      have heap: "walkH (length s0 + length g) w (ch # cs) r c dr dc (layout s0 g, occ) =
                  walkH (length s0 + length ?g1) w cs (r + dr) (c + dc) dr dc
                    (layout s0 ?g1, ?occ1)"
        using None rd by (simp add: Let_def readCellH_layout writeCellH_layout length_writeCell)
      from Cons.IH [of ?g1 "r + dr" "c + dc" ?occ1] show ?thesis
        unfolding pure heap len .
    qed
  qed
qed

lemma validateSolutionH_rejects:
  assumes "\<not> checksPass sz used sol"
  shows "\<exists>e. validateSolution sz used sol st = Inl e \<and>
             validateSolutionH cref sz used sol st' = (fst st', Inl e)"
  using assms by (auto simp: checksPass_def validateSolution_def validateSolutionH_def)

lemma validateSolutionH_simulates:
  "simulates s0 (length g) (validateSolution sz used sol (g, occ))
     (validateSolutionH (length s0 + length g) sz used sol (layout s0 g, occ))"
proof (cases "checksPass sz used sol")
  case True
  then have "validateSolutionH (length s0 + length g) sz used sol (layout s0 g, occ) =
      walkH (length s0 + length g) (word sol) (word sol) (startRow sol) (startCol sol)
        (sgn (endRow sol - startRow sol)) (sgn (endCol sol - startCol sol)) (layout s0 g, occ)"
    by (auto simp: validateSolutionH_def checksPass_def)
  then show ?thesis
    using walkH_simulates [of s0 g "word sol" "word sol" "startRow sol" "startCol sol"
        "sgn (endRow sol - startRow sol)" "sgn (endCol sol - startCol sol)" occ]
    by (simp add: validateSolution_checks [OF True])
next
  case False
  from validateSolutionH_rejects [OF False, of "(g, occ)" "length s0 + length g" "(layout s0 g, occ)"]
  obtain e where "validateSolution sz used sol (g, occ) = Inl e"
    "validateSolutionH (length s0 + length g) sz used sol (layout s0 g, occ) = (layout s0 g, Inl e)"
    by auto
  then show ?thesis
    by (intro simulatesI [of g]) simp_all
qed

lemma validateSolutionsH_simulates:
  "simulates s0 (length g) (validateSolutions sz used sols (g, occ))
     (validateSolutionsH (length s0 + length g) sz used sols (layout s0 g, occ))"
proof (induction sols arbitrary: g occ)
  case Nil
  show ?case by (rule simulatesI [of g]) simp_all
next
  case (Cons sol sols)
  from validateSolutionH_simulates [of s0 g sz used sol occ]
  obtain g1 where g1: "length g1 = length g"
    and st: "fst (validateSolutionH (length s0 + length g) sz used sol (layout s0 g, occ)) =
               layout s0 g1"
    and res: "case validateSolution sz used sol (g, occ) of
           Inl e \<Rightarrow> snd (validateSolutionH (length s0 + length g) sz used sol (layout s0 g, occ)) = Inl e
         | Inr st \<Rightarrow> fst st = g1 \<and>
             snd (validateSolutionH (length s0 + length g) sz used sol (layout s0 g, occ)) =
               Inr (snd st)"
    unfolding simulates_def by blast
  show ?case
  proof (cases "validateSolution sz used sol (g, occ)")
    case (Inl e)
    with res st have "validateSolutionH (length s0 + length g) sz used sol (layout s0 g, occ) =
        (layout s0 g1, Inl e)"
      by (simp add: prod_eq_iff)
    with Inl g1 show ?thesis
      by (intro simulatesI [of g1]) simp_all
  next
    case (Inr st1)
    obtain g1' occ1 where st1: "st1 = (g1', occ1)" by (cases st1)
    with Inr res st have h: "validateSolutionH (length s0 + length g) sz used sol (layout s0 g, occ) =
        (layout s0 g1, Inr occ1)" and eq: "g1' = g1"
      by (simp_all add: prod_eq_iff)
    from Cons.IH [of g1 occ1] show ?thesis
      using Inr h g1 unfolding st1 eq by simp
  qed
qed

lemma cellsAt_append: "cellsAt s a = Some v \<Longrightarrow> cellsAt (s @ ext) a = Some v"
  by (auto simp: cellsAt_def nth_append split: if_splits)

lemma refsAt_append: "refsAt s a = Some v \<Longrightarrow> refsAt (s @ ext) a = Some v"
  by (auto simp: refsAt_def nth_append split: if_splits)

lemma placementsAt_append: "placementsAt s a = Some v \<Longrightarrow> placementsAt (s @ ext) a = Some v"
  by (auto simp: placementsAt_def nth_append split: if_splits)

lemma wordsAt_append: "wordsAt s a = Some v \<Longrightarrow> wordsAt (s @ ext) a = Some v"
  by (auto simp: wordsAt_def nth_append split: if_splits)

lemma puzzleAt_append: "puzzleAt s a = Some v \<Longrightarrow> puzzleAt (s @ ext) a = Some v"
  by (auto simp: puzzleAt_def nth_append split: if_splits)

lemma derefGrid_append:
  assumes "derefGrid s a = Some g"
  shows "derefGrid (s @ ext) a = Some g"
proof -
  from assms obtain rr where rr: "refsAt s a = Some rr"
    and all: "list_all (\<lambda>ra. cellsAt s ra \<noteq> None) rr"
    and g: "g = map (\<lambda>ra. the (cellsAt s ra)) rr"
    by (auto simp: derefGrid_def split: option.splits if_splits)
  have same: "cellsAt (s @ ext) ra = cellsAt s ra" if "ra \<in> set rr" for ra
  proof -
    from all that obtain v where "cellsAt s ra = Some v" by (auto simp: list_all_iff)
    then show ?thesis by (simp add: cellsAt_append)
  qed
  then have "list_all (\<lambda>ra. cellsAt (s @ ext) ra \<noteq> None) rr"
    using all by (simp add: list_all_iff)
  moreover have "map (\<lambda>ra. the (cellsAt (s @ ext) ra)) rr = g"
    unfolding g using same by simp
  ultimately show ?thesis
    by (simp add: derefGrid_def refsAt_append [OF rr])
qed

lemma derefData_append:
  assumes "derefData s a = Some d"
  shows "derefData (s @ ext) a = Some d"
proof -
  from assms obtain gref solref wref g ps ws where
    "puzzleAt s a = Some (gref, solref, wref)" "derefGrid s gref = Some g"
    "placementsAt s solref = Some ps" "wordsAt s wref = Some ws"
    "d = \<lparr>grid = g, solution = ps, wordsUsed = ws\<rparr>"
    by (auto simp: derefData_def split: option.splits)
  then show ?thesis
    by (simp add: derefData_def puzzleAt_append derefGrid_append placementsAt_append
        wordsAt_append)
qed

lemma layout_append: "layout s0 g = s0 @ (map Cells g @ [Refs [length s0..<length s0 + length g]])"
  by (simp add: layout_def)

lemma derefGrid_layout: "derefGrid (layout s0 g) (length s0 + length g) = Some g"
proof -
  have "cellsAt (layout s0 g) ra = Some (g ! (ra - length s0))"
    if "ra \<in> set [length s0..<length s0 + length g]" for ra
  proof -
    from that have "ra = length s0 + (ra - length s0)" "ra - length s0 < length g" by auto
    with cellsAt_layout [of "ra - length s0" g s0] show ?thesis by simp
  qed
  then have all: "list_all (\<lambda>ra. cellsAt (layout s0 g) ra \<noteq> None) [length s0..<length s0 + length g]"
    and "map (\<lambda>ra. the (cellsAt (layout s0 g) ra)) [length s0..<length s0 + length g] =
         map (\<lambda>ra. g ! (ra - length s0)) [length s0..<length s0 + length g]"
    by (simp_all add: list_all_iff)
  moreover have "map (\<lambda>ra. g ! (ra - length s0)) [length s0..<length s0 + length g] = g"
    by (rule nth_equalityI) simp_all
  ultimately show ?thesis
    by (simp add: derefGrid_def refsAt_layout)
qed

section \<open>The claims\<close>

text \<open>Scenarios A and B of the specification, evaluated.\<close>

lemma scenario_A:
  "validateAndCorrectPuzzleData
     \<lparr>grid = rows [''XXXXX'', ''XCXTX'', ''XXXXX'', ''XXXXX'', ''XXXXX''],
      solution = [placement ''CAT'' 1 1 1 3], wordsUsed = [js ''CAT'']\<rparr> 5 =
   Inr \<lparr>grid = rows [''XXXXX'', ''XCATX'', ''XXXXX'', ''XXXXX'', ''XXXXX''],
      solution = [placement ''CAT'' 1 1 1 3], wordsUsed = [js ''CAT'']\<rparr>"
  by code_simp

lemma scenario_B:
  "validateAndCorrectPuzzleData
     \<lparr>grid = gridX 7, solution = [placement ''DOG'' 0 1 0 3, placement ''GOAT'' 0 3 0 6],
      wordsUsed = [js ''DOG'', js ''GOAT'']\<rparr> 7 =
   Inl (IntersectionError (js ''GOAT'') (js ''DOG'') 1 4)"
  by code_simp

subsection \<open>C1\<close>

text \<open>
  Claim C1. The word is the single letter U+00DF (sharp s) placed at (1,1), whose upper
  case is \<open>SS\<close>. The candidate passes every check and the repair writes the two-unit
  string \<open>SS\<close> into the cell; validating the returned puzzle again fails with the
  shape error.
\<close>

theorem repair_not_idempotent:
  "validateAndCorrectPuzzleData
     \<lparr>grid = gridX 5, solution = [\<lparr>word = [0xDF], startRow = 1, startCol = 1, endRow = 1, endCol = 1\<rparr>],
      wordsUsed = [[0xDF]]\<rparr> 5 =
   Inr \<lparr>grid = (gridX 5)[1 := (gridX 5 ! 1)[1 := JString (js ''SS'')]],
        solution = [\<lparr>word = [0xDF], startRow = 1, startCol = 1, endRow = 1, endCol = 1\<rparr>],
      wordsUsed = [[0xDF]]\<rparr> \<and>
   validateAndCorrectPuzzleData
    \<lparr>grid = (gridX 5)[1 := (gridX 5 ! 1)[1 := JString (js ''SS'')]],
        solution = [\<lparr>word = [0xDF], startRow = 1, startCol = 1, endRow = 1, endCol = 1\<rparr>],
      wordsUsed = [[0xDF]]\<rparr> 5 = Inl (ShapeError 5)"
  by code_simp

subsection \<open>C2\<close>

text \<open>
  Claim C2. The length check compares \<open>max(|dRow|, |dCol|) + 1\<close> with the length of the word
  and nothing else. The placement of \<open>GOAT\<close> from (0,1) to (1,4) is no straight line (one
  row down, three columns right), yet it passes: the walk goes down the diagonal, writes
  the word into (0,1), (1,2), (2,3), (3,4) and never reaches the declared end (1,4).
\<close>

theorem length_check_accepts_bent_placement:
  "validateAndCorrectPuzzleData
     \<lparr>grid = gridX 5, solution = [placement ''GOAT'' 0 1 1 4], wordsUsed = [js ''GOAT'']\<rparr> 5 =
   Inr \<lparr>grid = rows [''XGXXX'', ''XXOXX'', ''XXXAX'', ''XXXXT'', ''XXXXX''],
      solution = [placement ''GOAT'' 0 1 1 4], wordsUsed = [js ''GOAT'']\<rparr>"
  by code_simp

subsection \<open>C3\<close>

text \<open>
  Claim C3. The placements \<open>pre\<close> have been validated and \<open>q\<close> passes its four checks.
  If the \<open>k\<close>-th cell of the walk of \<open>q\<close> is a cell of a placement \<open>p\<close> of \<open>pre\<close>, and the
  cells of the walk before it are in the grid and claimed by no placement of \<open>pre\<close>, the
  validation fails with the intersection error that names \<open>q\<close>'s word, \<open>p\<close>'s word and
  the shared cell, row and column counted from 1. No puzzle is returned.
\<close>

theorem intersection_reported:
  assumes "solution d = pre @ q # rest"
    and "validateAndCorrectPuzzleData (d\<lparr>solution := pre\<rparr>) sz = Inr out"
    and "checksPass sz (wordsUsed d) q"
    and "p \<in> set pre"
    and "k < length (word q)"
    and "cellsOf q ! k \<in> set (cellsOf p)"
    and "\<forall>i<k. cellsOf q ! i \<notin> (\<Union>s \<in> set pre. set (cellsOf s)) \<and> inGrid sz (cellsOf q ! i)"
  shows "validateAndCorrectPuzzleData d sz =
           Inl (IntersectionError (word q) (word p)
                  (fst (cellsOf q ! k) + 1) (snd (cellsOf q ! k) + 1))"
proof -
  from assms(1,2) obtain g1 occ1 where sh: "\<not> shapeWrong (grid d) sz"
    and pre: "validateSolutions sz (wordsUsed d) pre (grid d, Map.empty) = Inr (g1, occ1)"
    and eq: "validateAndCorrectPuzzleData d sz =
           (case validateSolution sz (wordsUsed d) q (g1, occ1) of
              Inl e \<Rightarrow> Inl e
            | Inr st' \<Rightarrow>
               (case validateSolutions sz (wordsUsed d) rest st' of
                  Inl e \<Rightarrow> Inl e
                | Inr st'' \<Rightarrow> Inr (d\<lparr>grid := fst st''\<rparr>)))"
    by (rule validate_split)
  have g1: "allStrings sz g1"
    using pre shape_allStrings [OF sh] by (rule validateSolutions_allStrings)
  note inv = validateSolutions_Inr_occ [OF pre]
  from inv have dm: "dom occ1 = (\<Union>s \<in> set pre. set (cellsOf s))" by simp
  from inv assms(4,6) obtain x where own: "occ1 (cellsOf q ! k) = Some (word p, x)" by blast
  have cell: "cellsOf q ! i = (startRow q + int i * stepRow q, startCol q + int i * stepCol q)"
    if "i \<le> k" for i
    using that assms(5) by (simp add: cellsOf_nth)
  have hit: "occ1 (startRow q + int k * stepRow q, startCol q + int k * stepCol q) =
               Some (word p, x)"
    using own cell [of k] by simp
  have before: "\<forall>i<k. occ1 (startRow q + int i * stepRow q, startCol q + int i * stepCol q) = None \<and>
             inGrid sz (startRow q + int i * stepRow q, startCol q + int i * stepCol q)"
  proof (intro allI impI)
    fix i assume i: "i < k"
    with assms(7) have "cellsOf q ! i \<notin> dom occ1" "inGrid sz (cellsOf q ! i)"
      unfolding dm by blast+
    then have "occ1 (cellsOf q ! i) = None" "inGrid sz (cellsOf q ! i)"
      by blast+
    with cell [of i] i
    show "occ1 (startRow q + int i * stepRow q, startCol q + int i * stepCol q) = None \<and>
             inGrid sz (startRow q + int i * stepRow q, startCol q + int i * stepCol q)"
      by simp
  qed
  have "walk (word q) (word q) (startRow q) (startCol q) (stepRow q) (stepCol q) (g1, occ1) =
          Inl (IntersectionError (word q) (word p)
                 (startRow q + int k * stepRow q + 1) (startCol q + int k * stepCol q + 1))"
    using g1 assms(5) hit before checksPass_steps [OF assms(3,5)]
    by (rule walk_hits_occupied)
  then have "validateSolution sz (wordsUsed d) q (g1, occ1) =
          Inl (IntersectionError (word q) (word p)
                 (fst (cellsOf q ! k) + 1) (snd (cellsOf q ! k) + 1))"
    using cell [of k] by (simp add: validateSolution_checks [OF assms(3)] stepRow_def stepCol_def)
  with eq show ?thesis by simp
qed

theorem intersection_reported_witness:
  "validateAndCorrectPuzzleData
     \<lparr>grid = gridX 7, solution = [placement ''GOAT'' 0 3 0 6, placement ''DOG'' 0 1 0 3],
      wordsUsed = [js ''DOG'', js ''GOAT'']\<rparr> 7 =
   Inl (IntersectionError (js ''DOG'') (js ''GOAT'') 1 4)"
proof -
  let ?p = "placement ''GOAT'' 0 3 0 6" and ?q = "placement ''DOG'' 0 1 0 3"
  let ?d = "\<lparr>grid = gridX 7, solution = [?p, ?q], wordsUsed = [js ''DOG'', js ''GOAT'']\<rparr>"
  let ?out = "\<lparr>grid = rows [''XXXGOAT'', ''XXXXXXX'', ''XXXXXXX'', ''XXXXXXX'', ''XXXXXXX'',
                 ''XXXXXXX'', ''XXXXXXX''],
      solution = [?p], wordsUsed = [js ''DOG'', js ''GOAT'']\<rparr>"
  have 1: "solution ?d = [?p] @ ?q # []" by simp
  have 2: "validateAndCorrectPuzzleData (?d\<lparr>solution := [?p]\<rparr>) 7 = Inr ?out"
    by code_simp
  have 3: "checksPass 7 (wordsUsed ?d) ?q" by code_simp
  have 4: "?p \<in> set [?p]" by simp
  have 5: "2 < length (word ?q)" by (simp add: placement_def js_def)
  have 6: "cellsOf ?q ! 2 \<in> set (cellsOf ?p)" by code_simp
  have 7: "\<forall>i<2. cellsOf ?q ! i \<notin> (\<Union>s \<in> set [?p]. set (cellsOf s)) \<and> inGrid 7 (cellsOf ?q ! i)"
  proof (intro allI impI)
    fix i :: nat assume "i < 2"
    then consider "i = 0" | "i = 1" by linarith
    then show "cellsOf ?q ! i \<notin> (\<Union>s \<in> set [?p]. set (cellsOf s)) \<and> inGrid 7 (cellsOf ?q ! i)"
      by cases (simp_all, code_simp+)
  qed
  from intersection_reported [OF 1 2 3 4 5 6 7]
  have "validateAndCorrectPuzzleData ?d 7 =
          Inl (IntersectionError (word ?q) (word ?p) (fst (cellsOf ?q ! 2) + 1) (snd (cellsOf ?q ! 2) + 1))" .
  moreover have "cellsOf ?q ! 2 = (0, 3)" by code_simp
  ultimately show ?thesis by (simp add: placement_def)
qed

subsection \<open>C4\<close>

text \<open>
  Claim C4, amended. A candidate with a placement starting at row 0 and column 0 is never
  validated. The error is the corner error naming that word when the candidate cut off
  before this placement validates (the grid passes the shape check, which comes first, and
  no earlier placement fails). The corner error is thrown only for a placement whose start
  row and start column are both 0.
\<close>

theorem corner_start_rejected:
  "(sol \<in> set (solution d) \<and> startRow sol = 0 \<and> startCol sol = 0 \<longrightarrow>
      (\<exists>e. validateAndCorrectPuzzleData d sz = Inl e)) \<and>
   (solution d = pre @ sol # rest \<and> startRow sol = 0 \<and> startCol sol = 0 \<and>
    validateAndCorrectPuzzleData (d\<lparr>solution := pre\<rparr>) sz = Inr out \<longrightarrow>
      validateAndCorrectPuzzleData d sz = Inl (CornerError (word sol))) \<and>
   (validateAndCorrectPuzzleData d sz = Inl (CornerError w) \<longrightarrow>
      (\<exists>s \<in> set (solution d). word s = w \<and> startRow s = 0 \<and> startCol s = 0))"
proof (intro conjI impI)
  assume a: "sol \<in> set (solution d) \<and> startRow sol = 0 \<and> startCol sol = 0"
  show "\<exists>e. validateAndCorrectPuzzleData d sz = Inl e"
  proof (cases "validateAndCorrectPuzzleData d sz")
    case (Inl e)
    then show ?thesis by blast
  next
    case (Inr out')
    with a have "checksPass sz (wordsUsed d) sol" by (blast dest: validate_Inr_all_checks)
    with a show ?thesis by (simp add: checksPass_def)
  qed
next
  assume a: "solution d = pre @ sol # rest \<and> startRow sol = 0 \<and> startCol sol = 0 \<and>
    validateAndCorrectPuzzleData (d\<lparr>solution := pre\<rparr>) sz = Inr out"
  then obtain g1 occ1 where "validateAndCorrectPuzzleData d sz =
           (case validateSolution sz (wordsUsed d) sol (g1, occ1) of
              Inl e \<Rightarrow> Inl e
            | Inr st' \<Rightarrow>
               (case validateSolutions sz (wordsUsed d) rest st' of
                  Inl e \<Rightarrow> Inl e
                | Inr st'' \<Rightarrow> Inr (d\<lparr>grid := fst st''\<rparr>)))"
    by (blast elim: validate_split)
  with a show "validateAndCorrectPuzzleData d sz = Inl (CornerError (word sol))"
    by (simp add: validateSolution_def)
next
  assume "validateAndCorrectPuzzleData d sz = Inl (CornerError w)"
  then have "validateSolutions sz (wordsUsed d) (solution d) (grid d, Map.empty) =
      Inl (CornerError w)"
    by (auto simp: validateAndCorrectPuzzleData_def split: if_splits sum.splits)
  from validateSolutions_Inl_kind [OF this]
  show "\<exists>s \<in> set (solution d). word s = w \<and> startRow s = 0 \<and> startCol s = 0"
    by auto
qed

theorem corner_start_rejected_witness:
  "(\<exists>e. validateAndCorrectPuzzleData
          \<lparr>grid = gridX 5, solution = [placement ''CAT'' 1 1 1 3, placement ''SUN'' 0 0 0 2],
           wordsUsed = [js ''CAT'', js ''SUN'']\<rparr> 5 = Inl e) \<and>
   validateAndCorrectPuzzleData
     \<lparr>grid = gridX 5, solution = [placement ''CAT'' 1 1 1 3, placement ''SUN'' 0 0 0 2],
      wordsUsed = [js ''CAT'', js ''SUN'']\<rparr> 5 = Inl (CornerError (js ''SUN'')) \<and>
   (\<exists>s \<in> set [placement ''CAT'' 1 1 1 3, placement ''SUN'' 0 0 0 2].
      word s = js ''SUN'' \<and> startRow s = 0 \<and> startCol s = 0)"
proof -
  let ?cat = "placement ''CAT'' 1 1 1 3" and ?sun = "placement ''SUN'' 0 0 0 2"
  let ?d = "\<lparr>grid = gridX 5, solution = [?cat, ?sun], wordsUsed = [js ''CAT'', js ''SUN'']\<rparr>"
  let ?out = "\<lparr>grid = rows [''XXXXX'', ''XCATX'', ''XXXXX'', ''XXXXX'', ''XXXXX''],
      solution = [?cat], wordsUsed = [js ''CAT'', js ''SUN'']\<rparr>"
  note inst = corner_start_rejected [of ?sun ?d 5 "[?cat]" "[]" ?out "js ''SUN''"]
  have pre: "validateAndCorrectPuzzleData (?d\<lparr>solution := [?cat]\<rparr>) 5 = Inr ?out"
    by code_simp
  have corner: "startRow ?sun = 0 \<and> startCol ?sun = 0" by (simp add: placement_def)
  have "?sun \<in> set (solution ?d)" by simp
  with inst corner have 1: "\<exists>e. validateAndCorrectPuzzleData ?d 5 = Inl e" by blast
  have "solution ?d = [?cat] @ ?sun # []" by simp
  with inst corner pre
  have "validateAndCorrectPuzzleData ?d 5 = Inl (CornerError (word ?sun))" by blast
  then have 2: "validateAndCorrectPuzzleData ?d 5 = Inl (CornerError (js ''SUN''))"
    by (simp add: placement_def)
  with inst have 3: "\<exists>s \<in> set (solution ?d). word s = js ''SUN'' \<and> startRow s = 0 \<and> startCol s = 0"
    by blast
  from 1 2 3 show ?thesis by simp
qed

text \<open>
  The claim C4 as it is written asks for an error naming the word for every candidate
  with a corner placement. With a 4 by 4 grid where 5 by 5 is expected, the shape error
  comes first and names no word.
\<close>

theorem corner_start_rejected_counterexample:
  "validateAndCorrectPuzzleData
     \<lparr>grid = gridX 4, solution = [placement ''SUN'' 0 0 0 2], wordsUsed = [js ''SUN'']\<rparr> 5 =
   Inl (ShapeError 5)"
  by code_simp

subsection \<open>C5\<close>

text \<open>
  Claim C5. A grid that is not \<open>sz\<close> rows of \<open>sz\<close> entries, each a string of one code
  unit, makes the validation fail with the shape error, whatever the solution and the
  \<open>wordsUsed\<close> list are: no check of a placement comes before it.
\<close>

theorem shape_error_first:
  assumes "\<not> (int (length g) = sz \<and>
             (\<forall>row \<in> set g. int (length row) = sz \<and>
                (\<forall>cell \<in> set row. \<exists>ch. cell = JString [ch])))"
  shows "validateAndCorrectPuzzleData \<lparr>grid = g, solution = sols, wordsUsed = used\<rparr> sz =
           Inl (ShapeError sz)"
  using assms by (simp add: validateAndCorrectPuzzleData_def shapeWrong_iff)

theorem shape_error_first_witness:
  "validateAndCorrectPuzzleData
     \<lparr>grid = rows [''AB'', ''C''], solution = [placement ''SUN'' 0 0 0 2], wordsUsed = []\<rparr> 2 =
   Inl (ShapeError 2)"
proof -
  have "\<not> (int (length (rows [''AB'', ''C''])) = 2 \<and>
             (\<forall>row \<in> set (rows [''AB'', ''C'']). int (length row) = 2 \<and>
                (\<forall>cell \<in> set row. \<exists>ch. cell = JString [ch])))"
    by (simp add: rows_def)
  then show ?thesis by (rule shape_error_first)
qed

subsection \<open>C6\<close>

text \<open>
  Claim C6. A run sends at most three requests. If the three attempts fail, whatever the
  failures are (the request, the parse, the missing fields, the validation), the run ends
  with the terminal error carrying the attempt count 3, after a warning for each attempt.
  A run fails only in this way. The first attempt that succeeds ends the run with its
  puzzle. What the generator would answer to a fourth request has no effect.
\<close>

theorem bounded_retries:
  "requests (generateWordSearch gen sz) \<le> 3 \<and>
   ((\<forall>k \<in> {1, 2, 3}. \<exists>e. attemptResult (gen k) sz = Inl e) \<longrightarrow>
      requests (generateWordSearch gen sz) = 3 \<and>
      map fst (warnings (generateWordSearch gen sz)) = [1, 2, 3] \<and>
      outcome (generateWordSearch gen sz) = Inl (ExhaustedRetries 3)) \<and>
   (\<forall>e. outcome (generateWordSearch gen sz) = Inl e \<longrightarrow>
      e = ExhaustedRetries 3 \<and> (\<forall>k \<in> {1, 2, 3}. \<exists>e'. attemptResult (gen k) sz = Inl e')) \<and>
   (\<forall>k \<in> {1, 2, 3}. \<forall>p. attemptResult (gen k) sz = Inr p \<and>
        (\<forall>j. 1 \<le> j \<and> j < k \<longrightarrow> (\<exists>e. attemptResult (gen j) sz = Inl e)) \<longrightarrow>
      requests (generateWordSearch gen sz) = k \<and>
      outcome (generateWordSearch gen sz) = Inr p) \<and>
   ((\<forall>k \<in> {1, 2, 3}. gen' k = gen k) \<longrightarrow>
      generateWordSearch gen' sz = generateWordSearch gen sz)"
proof (intro conjI)
  show "requests (generateWordSearch gen sz) \<le> 3"
    by (simp add: generateWordSearch_unrolled split: sum.splits)
  show "(\<forall>k \<in> {1, 2, 3}. \<exists>e. attemptResult (gen k) sz = Inl e) \<longrightarrow>
      requests (generateWordSearch gen sz) = 3 \<and>
      map fst (warnings (generateWordSearch gen sz)) = [1, 2, 3] \<and>
      outcome (generateWordSearch gen sz) = Inl (ExhaustedRetries 3)"
    by (auto simp: generateWordSearch_unrolled split: sum.splits)
  show "\<forall>e. outcome (generateWordSearch gen sz) = Inl e \<longrightarrow>
      e = ExhaustedRetries 3 \<and> (\<forall>k \<in> {1, 2, 3}. \<exists>e'. attemptResult (gen k) sz = Inl e')"
    by (auto simp: generateWordSearch_unrolled split: sum.splits)
  show "\<forall>k \<in> {1, 2, 3}. \<forall>p. attemptResult (gen k) sz = Inr p \<and>
        (\<forall>j. 1 \<le> j \<and> j < k \<longrightarrow> (\<exists>e. attemptResult (gen j) sz = Inl e)) \<longrightarrow>
      requests (generateWordSearch gen sz) = k \<and>
      outcome (generateWordSearch gen sz) = Inr p"
  proof (intro ballI allI impI)
    fix k p
    assume k: "k \<in> {1, 2, 3::nat}"
      and a: "attemptResult (gen k) sz = Inr p \<and>
        (\<forall>j. 1 \<le> j \<and> j < k \<longrightarrow> (\<exists>e. attemptResult (gen j) sz = Inl e))"
    from k consider "k = 1" | "k = 2" | "k = 3" by auto
    then show "requests (generateWordSearch gen sz) = k \<and>
      outcome (generateWordSearch gen sz) = Inr p"
    proof cases
      case 1
      with a show ?thesis by (simp add: generateWordSearch_unrolled)
    next
      case 2
      with a obtain e1 where "attemptResult (gen 1) sz = Inl e1" by force
      with a 2 show ?thesis by (simp add: generateWordSearch_unrolled)
    next
      case 3
      from a 3 have "\<exists>e. attemptResult (gen 1) sz = Inl e" by simp
      moreover from a 3 have "\<exists>e. attemptResult (gen 2) sz = Inl e" by simp
      ultimately obtain e1 e2 where "attemptResult (gen 1) sz = Inl e1"
        "attemptResult (gen 2) sz = Inl e2"
        by blast
      with a 3 show ?thesis by (simp add: generateWordSearch_unrolled)
    qed
  qed
  show "(\<forall>k \<in> {1, 2, 3}. gen' k = gen k) \<longrightarrow>
      generateWordSearch gen' sz = generateWordSearch gen sz"
    by (simp add: generateWordSearch_unrolled cong: sum.case_cong)
qed

theorem bounded_retries_witness:
  "requests (generateWordSearch (\<lambda>k. Parsed wrongShape) 5) = 3 \<and>
   map fst (warnings (generateWordSearch (\<lambda>k. Parsed wrongShape) 5)) = [1, 2, 3] \<and>
   outcome (generateWordSearch (\<lambda>k. Parsed wrongShape) 5) = Inl (ExhaustedRetries 3) \<and>
   requests (generateWordSearch (\<lambda>k. if k = 2 then Parsed scenarioA else TextUnparsable) 5) = 2 \<and>
   outcome (generateWordSearch (\<lambda>k. if k = 2 then Parsed scenarioA else TextUnparsable) 5) =
     Inr (scenarioA\<lparr>grid := rows [''XXXXX'', ''XCATX'', ''XXXXX'', ''XXXXX'', ''XXXXX'']\<rparr>) \<and>
   generateWordSearch (\<lambda>k. if k \<le> 3 then Parsed wrongShape else Parsed scenarioA) 5 =
     generateWordSearch (\<lambda>k. Parsed wrongShape) 5"
proof -
  let ?bad = "\<lambda>k::nat. Parsed wrongShape"
  let ?second = "\<lambda>k::nat. if k = 2 then Parsed scenarioA else TextUnparsable"
  let ?later = "\<lambda>k::nat. if k \<le> 3 then Parsed wrongShape else Parsed scenarioA"
  let ?puzzle = "scenarioA\<lparr>grid := rows [''XXXXX'', ''XCATX'', ''XXXXX'', ''XXXXX'', ''XXXXX'']\<rparr>"
  have "attemptResult (Parsed wrongShape) 5 = Inl (ShapeError 5)"
    by code_simp
  then have "\<forall>k \<in> {1, 2, 3::nat}. \<exists>e. attemptResult (?bad k) 5 = Inl e"
    by simp
  with bounded_retries [of ?bad 5 ?later]
  have 1: "requests (generateWordSearch ?bad 5) = 3 \<and>
      map fst (warnings (generateWordSearch ?bad 5)) = [1, 2, 3] \<and>
      outcome (generateWordSearch ?bad 5) = Inl (ExhaustedRetries 3)"
    by blast
  have "\<forall>k \<in> {1, 2, 3::nat}. ?later k = ?bad k" by simp
  with bounded_retries [of ?bad 5 ?later]
  have 2: "generateWordSearch ?later 5 = generateWordSearch ?bad 5" by blast
  have ok: "attemptResult (?second 2) 5 = Inr ?puzzle" by code_simp
  have "\<forall>j. 1 \<le> j \<and> j < (2::nat) \<longrightarrow> (\<exists>e. attemptResult (?second j) 5 = Inl e)"
  proof (intro allI impI)
    fix j :: nat assume "1 \<le> j \<and> j < 2"
    then have "j = 1" by simp
    then show "\<exists>e. attemptResult (?second j) 5 = Inl e" by simp
  qed
  with ok bounded_retries [of ?second 5 ?second]
  have 3: "requests (generateWordSearch ?second 5) = 2 \<and>
      outcome (generateWordSearch ?second 5) = Inr ?puzzle"
    by blast
  from 1 2 3 show ?thesis by simp
qed

lemma scenario_D:
  "generateWordSearch (\<lambda>k. Parsed wrongShape) 5 =
     \<lparr>requests = 3, warnings = [(1, ShapeError 5), (2, ShapeError 5), (3, ShapeError 5)],
      outcome = Inl (ExhaustedRetries 3)\<rparr>"
  by code_simp

subsection \<open>C7\<close>

text \<open>
  Claim C7, amended. A candidate with a placement whose word is not in \<open>wordsUsed\<close> is
  never validated. When the candidate cut off before this placement validates, the error
  names that word: it is the cross-reference error, or the corner error if the placement
  also starts at row 0 and column 0 (the corner check comes first).
\<close>

theorem words_used_cross_reference:
  "(sol \<in> set (solution d) \<and> word sol \<notin> set (wordsUsed d) \<longrightarrow>
      (\<exists>e. validateAndCorrectPuzzleData d sz = Inl e)) \<and>
   (solution d = pre @ sol # rest \<and> word sol \<notin> set (wordsUsed d) \<and>
    validateAndCorrectPuzzleData (d\<lparr>solution := pre\<rparr>) sz = Inr out \<longrightarrow>
      validateAndCorrectPuzzleData d sz =
        (if startRow sol = 0 \<and> startCol sol = 0 then Inl (CornerError (word sol))
         else Inl (NotInWordsUsed (word sol))))"
proof (intro conjI impI)
  assume a: "sol \<in> set (solution d) \<and> word sol \<notin> set (wordsUsed d)"
  show "\<exists>e. validateAndCorrectPuzzleData d sz = Inl e"
  proof (cases "validateAndCorrectPuzzleData d sz")
    case (Inl e)
    then show ?thesis by blast
  next
    case (Inr out')
    with a have "checksPass sz (wordsUsed d) sol" by (blast dest: validate_Inr_all_checks)
    with a show ?thesis by (simp add: checksPass_def)
  qed
next
  assume a: "solution d = pre @ sol # rest \<and> word sol \<notin> set (wordsUsed d) \<and>
    validateAndCorrectPuzzleData (d\<lparr>solution := pre\<rparr>) sz = Inr out"
  then obtain g1 occ1 where "validateAndCorrectPuzzleData d sz =
           (case validateSolution sz (wordsUsed d) sol (g1, occ1) of
              Inl e \<Rightarrow> Inl e
            | Inr st' \<Rightarrow>
               (case validateSolutions sz (wordsUsed d) rest st' of
                  Inl e \<Rightarrow> Inl e
                | Inr st'' \<Rightarrow> Inr (d\<lparr>grid := fst st''\<rparr>)))"
    by (blast elim: validate_split)
  with a show "validateAndCorrectPuzzleData d sz =
        (if startRow sol = 0 \<and> startCol sol = 0 then Inl (CornerError (word sol))
         else Inl (NotInWordsUsed (word sol)))"
    by (simp add: validateSolution_def)
qed

theorem words_used_cross_reference_witness:
  "(\<exists>e. validateAndCorrectPuzzleData
          \<lparr>grid = gridX 5, solution = [placement ''CAT'' 1 1 1 3, placement ''DOG'' 2 1 2 3],
           wordsUsed = [js ''CAT'']\<rparr> 5 = Inl e) \<and>
   validateAndCorrectPuzzleData
     \<lparr>grid = gridX 5, solution = [placement ''CAT'' 1 1 1 3, placement ''DOG'' 2 1 2 3],
      wordsUsed = [js ''CAT'']\<rparr> 5 = Inl (NotInWordsUsed (js ''DOG''))"
proof -
  let ?cat = "placement ''CAT'' 1 1 1 3" and ?dog = "placement ''DOG'' 2 1 2 3"
  let ?d = "\<lparr>grid = gridX 5, solution = [?cat, ?dog], wordsUsed = [js ''CAT'']\<rparr>"
  let ?out = "\<lparr>grid = rows [''XXXXX'', ''XCATX'', ''XXXXX'', ''XXXXX'', ''XXXXX''],
      solution = [?cat], wordsUsed = [js ''CAT'']\<rparr>"
  note inst = words_used_cross_reference [of ?dog ?d 5 "[?cat]" "[]" ?out]
  have pre: "validateAndCorrectPuzzleData (?d\<lparr>solution := [?cat]\<rparr>) 5 = Inr ?out"
    by code_simp
  have missing: "word ?dog \<notin> set (wordsUsed ?d)" by (simp add: placement_def js_def)
  have "?dog \<in> set (solution ?d)" by simp
  with inst missing have 1: "\<exists>e. validateAndCorrectPuzzleData ?d 5 = Inl e" by blast
  have "solution ?d = [?cat] @ ?dog # []" by simp
  with inst missing pre
  have "validateAndCorrectPuzzleData ?d 5 =
        (if startRow ?dog = 0 \<and> startCol ?dog = 0 then Inl (CornerError (word ?dog))
         else Inl (NotInWordsUsed (word ?dog)))"
    by blast
  then have 2: "validateAndCorrectPuzzleData ?d 5 = Inl (NotInWordsUsed (js ''DOG''))"
    by (simp add: placement_def)
  from 1 2 show ?thesis by simp
qed

text \<open>
  The claim C7 as it is written asks for an error naming the word for every candidate
  with such a placement. Here \<open>DOG\<close> is missing from \<open>wordsUsed\<close>, but the placement
  before it starts in the corner, and the error names \<open>SUN\<close> only.
\<close>

theorem words_used_cross_reference_counterexample:
  "validateAndCorrectPuzzleData
     \<lparr>grid = gridX 5, solution = [placement ''SUN'' 0 0 0 2, placement ''DOG'' 2 1 2 3],
      wordsUsed = [js ''SUN'']\<rparr> 5 =
   Inl (CornerError (js ''SUN''))"
  by code_simp

subsection \<open>C8\<close>

text \<open>
  Claim C8. The candidate \<open>d\<close> is the object at \<open>dref\<close> in the store \<open>s\<close>. After the call,
  failed or not, every object that was in the store is as it was, so the candidate still
  reads as \<open>d\<close>. The call fails as the validation of \<open>d\<close> fails; when it succeeds it
  returns a fresh object that reads as the validated puzzle, whose solution and
  \<open>wordsUsed\<close> are those of \<open>d\<close>.
\<close>

theorem input_left_unmodified:
  assumes "derefData s dref = Some d"
  shows "take (length s) (fst (validateAndCorrectPuzzleDataH s dref sz)) = s \<and>
         derefData (fst (validateAndCorrectPuzzleDataH s dref sz)) dref = Some d \<and>
         (case validateAndCorrectPuzzleData d sz of
            Inl e \<Rightarrow> snd (validateAndCorrectPuzzleDataH s dref sz) = Inl e
          | Inr out \<Rightarrow>
              solution out = solution d \<and> wordsUsed out = wordsUsed d \<and>
              (\<exists>a. snd (validateAndCorrectPuzzleDataH s dref sz) = Inr a \<and> length s \<le> a \<and>
                   derefData (fst (validateAndCorrectPuzzleDataH s dref sz)) a = Some out))"
proof -
  from assms obtain gref solref wref g ps ws where
    pz: "puzzleAt s dref = Some (gref, solref, wref)" and g: "derefGrid s gref = Some g" and
    ps: "placementsAt s solref = Some ps" and ws: "wordsAt s wref = Some ws" and
    d: "d = \<lparr>grid = g, solution = ps, wordsUsed = ws\<rparr>"
    by (auto simp: derefData_def split: option.splits)
  let ?cref = "length s + length g"
  have copy: "copyGrid s gref = Some (layout s g, ?cref)"
    by (simp add: copyGrid_def g layout_def)
  have ps1: "placementsAt (layout s g') solref = Some ps"
    and ws1: "wordsAt (layout s g') wref = Some ws" for g'
    unfolding layout_append by (simp_all add: placementsAt_append ps wordsAt_append ws)
  have keep: "derefData (layout s g') dref = Some d" for g'
    unfolding layout_append using assms by (rule derefData_append)
  show ?thesis
  proof (cases "shapeWrong g sz")
    case True
    then have "validateAndCorrectPuzzleDataH s dref sz = (layout s g, Inl (ShapeError sz))"
      by (simp add: validateAndCorrectPuzzleDataH_def pz copy derefGrid_layout)
    with True show ?thesis
      by (simp add: take_layout keep validateAndCorrectPuzzleData_def d)
  next
    case False
    from validateSolutionsH_simulates [of s g sz ws ps Map.empty]
    obtain g' where len: "length g' = length g"
      and st: "fst (validateSolutionsH ?cref sz ws ps (layout s g, Map.empty)) = layout s g'"
      and res: "case validateSolutions sz ws ps (g, Map.empty) of
           Inl e \<Rightarrow> snd (validateSolutionsH ?cref sz ws ps (layout s g, Map.empty)) = Inl e
         | Inr st \<Rightarrow> fst st = g' \<and>
             snd (validateSolutionsH ?cref sz ws ps (layout s g, Map.empty)) = Inr (snd st)"
      unfolding simulates_def by blast
    show ?thesis
    proof (cases "validateSolutions sz ws ps (g, Map.empty)")
      case (Inl e)
      with res st have "validateSolutionsH ?cref sz ws ps (layout s g, Map.empty) =
          (layout s g', Inl e)"
        by (simp add: prod_eq_iff)
      with False have "validateAndCorrectPuzzleDataH s dref sz = (layout s g', Inl e)"
        by (simp add: validateAndCorrectPuzzleDataH_def pz copy derefGrid_layout ps1 ws1)
      with False Inl show ?thesis
        by (simp add: take_layout keep validateAndCorrectPuzzleData_def d)
    next
      case (Inr st1)
      with res st have run: "validateSolutionsH ?cref sz ws ps (layout s g, Map.empty) =
          (layout s g', Inr (snd st1))" and fst1: "fst st1 = g'"
        by (simp_all add: prod_eq_iff)
      let ?s' = "layout s g' @ [Puzzle ?cref solref wref]"
      from False run have h: "validateAndCorrectPuzzleDataH s dref sz =
          (?s', Inr (length (layout s g')))"
        by (simp add: validateAndCorrectPuzzleDataH_def pz copy derefGrid_layout ps1 ws1)
      have out: "validateAndCorrectPuzzleData d sz =
          Inr \<lparr>grid = g', solution = ps, wordsUsed = ws\<rparr>"
        using False Inr fst1 by (simp add: validateAndCorrectPuzzleData_def d)
      have new: "derefData ?s' (length (layout s g')) =
          Some \<lparr>grid = g', solution = ps, wordsUsed = ws\<rparr>"
      proof -
        have "puzzleAt ?s' (length (layout s g')) = Some (?cref, solref, wref)"
          by (simp add: puzzleAt_def)
        moreover have "derefGrid ?s' ?cref = Some g'"
          using derefGrid_layout [of s g'] len by (simp add: derefGrid_append)
        moreover have "placementsAt ?s' solref = Some ps" "wordsAt ?s' wref = Some ws"
          by (simp_all add: placementsAt_append ps1 wordsAt_append ws1)
        ultimately show ?thesis by (simp add: derefData_def)
      qed
      have 1: "take (length s) ?s' = s" by (simp add: layout_def)
      have 2: "derefData ?s' dref = Some d" using keep by (rule derefData_append)
      have 3: "length s \<le> length (layout s g')" by (simp add: layout_def)
      from 1 2 3 new show ?thesis
        unfolding h out by (simp add: d)
    qed
  qed
qed

theorem input_left_unmodified_witness:
  "derefData exampleStore 8 =
     Some \<lparr>grid = rows [''XXXXX'', ''XCXTX'', ''XXXXX'', ''XXXXX'', ''XXXXX''],
           solution = [placement ''CAT'' 1 1 1 3], wordsUsed = [js ''CAT'']\<rparr> \<and>
   take (length exampleStore) (fst (validateAndCorrectPuzzleDataH exampleStore 8 5)) =
     exampleStore \<and>
   derefData (fst (validateAndCorrectPuzzleDataH exampleStore 8 5)) 8 =
     Some \<lparr>grid = rows [''XXXXX'', ''XCXTX'', ''XXXXX'', ''XXXXX'', ''XXXXX''],
           solution = [placement ''CAT'' 1 1 1 3], wordsUsed = [js ''CAT'']\<rparr>"
proof -
  have h: "derefData exampleStore 8 =
     Some \<lparr>grid = rows [''XXXXX'', ''XCXTX'', ''XXXXX'', ''XXXXX'', ''XXXXX''],
           solution = [placement ''CAT'' 1 1 1 3], wordsUsed = [js ''CAT'']\<rparr>"
    by code_simp
  from input_left_unmodified [OF h, of 5] h show ?thesis by blast
qed

lemma store_run:
  "validateAndCorrectPuzzleDataH exampleStore 8 5 =
     (exampleStore @
      map Cells (rows [''XXXXX'', ''XCATX'', ''XXXXX'', ''XXXXX'', ''XXXXX'']) @
      [Refs [9, 10, 11, 12, 13], Puzzle 14 6 7], Inr 15)"
  by code_simp

subsection \<open>C9\<close>

text \<open>
  Claim C9. The placement of \<open>HELLO\<close> from (3,0) to (4,4) in a 5 by 5 grid passes the
  corner, cross-reference, bounds and length checks; the third cell of its walk is (5,2),
  below the last row, and reading it throws a TypeError.
\<close>

theorem walk_leaves_grid:
  "checksPass 5 [js ''HELLO''] (placement ''HELLO'' 3 0 4 4) \<and>
   cellsOf (placement ''HELLO'' 3 0 4 4) ! 2 = (5, 2) \<and>
   validateAndCorrectPuzzleData
     \<lparr>grid = gridX 5, solution = [placement ''HELLO'' 3 0 4 4], wordsUsed = [js ''HELLO'']\<rparr> 5 =
   Inl TypeError"
  by code_simp

subsection \<open>C10\<close>

text \<open>
  Claim C10. With a grid that passes the shape check and an empty solution list, the
  validation succeeds and returns the grid, the solution and \<open>wordsUsed\<close> as they came,
  whatever \<open>wordsUsed\<close> holds.
\<close>

theorem empty_solution_returns_input:
  assumes "int (length g) = sz"
    and "\<forall>row \<in> set g. int (length row) = sz \<and> (\<forall>cell \<in> set row. \<exists>ch. cell = JString [ch])"
  shows "validateAndCorrectPuzzleData \<lparr>grid = g, solution = [], wordsUsed = used\<rparr> sz =
           Inr \<lparr>grid = g, solution = [], wordsUsed = used\<rparr>"
  using assms by (simp add: validateAndCorrectPuzzleData_def shapeWrong_iff)

theorem empty_solution_returns_input_witness:
  "validateAndCorrectPuzzleData \<lparr>grid = gridX 5, solution = [], wordsUsed = [js ''CAT'']\<rparr> 5 =
     Inr \<lparr>grid = gridX 5, solution = [], wordsUsed = [js ''CAT'']\<rparr>"
proof -
  have 1: "int (length (gridX 5)) = 5" by (simp add: gridX_def)
  have 2: "\<forall>row \<in> set (gridX 5). int (length row) = 5 \<and>
             (\<forall>cell \<in> set row. \<exists>ch. cell = JString [ch])"
    by (simp add: gridX_def js_def)
  from 1 2 show ?thesis by (rule empty_solution_returns_input)
qed

end
